theory Spec2Isabelle
  imports Complex_Main "HOL-Library.Multiset"
begin

section \<open>Errors, tensors and the numpy operations of quickpaint.py\<close>

text \<open>
  Every exception the orchestration code can raise or let through is a value.
  \<open>OtherError\<close> stands for any further exception of a library call.
\<close>

datatype error =
    AssertionError
  | IndexError
  | ZeroDivisionError
  | ValueError
  | UnboundLocalError
  | IOError
  | OSError
  | ResourceExhaustedError
  | OtherError nat

text \<open>
  A pixel tensor is a three-dimensional array: its shape (height, width, channels) and
  its elements. numpy's float32, float64, int64 and uint8 element types are all read as
  reals.  The 8-bit pixel data and the 0/1 masks are integer-valued, and on them the
  threshold comparison and the product with the mask give the same result in floating
  point; the products with the blend factor are rounded to float32 by numpy and exact
  here.
\<close>

type_synonym shape = "nat \<times> nat \<times> nat"

record tensor =
  shape :: shape
  elem :: "nat \<Rightarrow> nat \<Rightarrow> nat \<Rightarrow> real"

definition height :: "tensor \<Rightarrow> nat" where
  "height t = fst (shape t)"

definition width :: "tensor \<Rightarrow> nat" where
  "width t = fst (snd (shape t))"

definition channels :: "tensor \<Rightarrow> nat" where
  "channels t = snd (snd (shape t))"

definition elems :: "tensor \<Rightarrow> real list" where
  "elems t = concat (map (\<lambda>i. concat (map (\<lambda>j. map (\<lambda>k. elem t i j k)
     [0..<channels t]) [0..<width t])) [0..<height t])"

text \<open>\<open>np.zeros(s)\<close>\<close>

definition zeros :: "shape \<Rightarrow> tensor" where
  "zeros s = \<lparr>shape = s, elem = (\<lambda>i j k. 0)\<rparr>"

text \<open>\<open>a.max()\<close>: numpy raises ValueError on an array without elements.\<close>

definition np_max :: "tensor \<Rightarrow> error + real" where
  "np_max t = (case elems t of [] \<Rightarrow> Inl ValueError | v # vs \<Rightarrow> Inr (fold max vs v))"

text \<open>\<open>a.min()\<close>, with the same error.\<close>

definition np_min :: "tensor \<Rightarrow> error + real" where
  "np_min t = (case elems t of [] \<Rightarrow> Inl ValueError | v # vs \<Rightarrow> Inr (fold min vs v))"

text \<open>\<open>np.where(a > thr, 1, 0)\<close>\<close>

definition np_where_gt :: "tensor \<Rightarrow> real \<Rightarrow> tensor" where
  "np_where_gt a thr = \<lparr>shape = shape a, elem = (\<lambda>i j k. if elem a i j k > thr then 1 else 0)\<rparr>"

text \<open>\<open>a * blend\<close> with a scalar\<close>

definition scale :: "tensor \<Rightarrow> real \<Rightarrow> tensor" where
  "scale a b = \<lparr>shape = shape a, elem = (\<lambda>i j k. elem a i j k * b)\<rparr>"

text \<open>\<open>np.clip(p, 0, 255).astype(np.uint8)\<close>: clip, then truncate to an integer.\<close>

definition clip_uint8 :: "tensor \<Rightarrow> tensor" where
  "clip_uint8 p = \<lparr>shape = shape p,
     elem = (\<lambda>i j k. of_int \<lfloor>min 255 (max 0 (elem p i j k))\<rfloor>)\<rparr>"

text \<open>\<open>img[0:h, 0:w, :]\<close>: the top-left crop; a slice never raises.\<close>

definition crop :: "tensor \<Rightarrow> nat \<Rightarrow> nat \<Rightarrow> tensor" where
  "crop img h w = \<lparr>shape = (min h (height img), min w (width img), channels img),
     elem = elem img\<rparr>"

text \<open>
  numpy broadcasting of one dimension against another: equal sizes, or one of them 1.
\<close>

definition bdim :: "nat \<Rightarrow> nat \<Rightarrow> nat option" where
  "bdim a b = (if a = b then Some a else if a = 1 then Some b else if b = 1 then Some a
     else None)"

definition bidx :: "nat \<Rightarrow> nat \<Rightarrow> nat" where
  "bidx d i = (if d = 1 then 0 else i)"

text \<open>\<open>np.multiply(a, b)\<close>: elementwise with broadcasting, ValueError when the
  shapes cannot be broadcast together.\<close>

definition np_multiply :: "tensor \<Rightarrow> tensor \<Rightarrow> error + tensor" where
  "np_multiply a b =
     (case (bdim (height a) (height b), bdim (width a) (width b),
            bdim (channels a) (channels b)) of
        (Some h, Some w, Some c) \<Rightarrow>
          Inr \<lparr>shape = (h, w, c),
               elem = (\<lambda>i j k.
                 elem a (bidx (height a) i) (bidx (width a) j) (bidx (channels a) k) *
                 elem b (bidx (height b) i) (bidx (width b) j) (bidx (channels b) k))\<rparr>
      | _ \<Rightarrow> Inl ValueError)"

text \<open>
  \<open>x[j] = img\<close> on the batch buffer: IndexError when \<open>j\<close> is outside the first
  dimension; the assigned image is broadcast to the shape of the row, ValueError when
  it cannot be.
\<close>

definition broadcast_to :: "tensor \<Rightarrow> shape \<Rightarrow> error + tensor" where
  "broadcast_to a s =
     (case s of (h, w, c) \<Rightarrow>
        if (height a = h \<or> height a = 1) \<and> (width a = w \<or> width a = 1) \<and>
           (channels a = c \<or> channels a = 1)
        then Inr \<lparr>shape = s,
                  elem = (\<lambda>i j k. elem a (bidx (height a) i) (bidx (width a) j)
                                          (bidx (channels a) k))\<rparr>
        else Inl ValueError)"

definition get_row :: "tensor list \<Rightarrow> nat \<Rightarrow> error + tensor" where
  "get_row x i = (if i < length x then Inr (x ! i) else Inl IndexError)"

definition set_row :: "tensor list \<Rightarrow> nat \<Rightarrow> tensor \<Rightarrow> error + tensor list" where
  "set_row x j img =
     (if j < length x
      then (case broadcast_to img (shape (x ! j)) of
              Inl e \<Rightarrow> Inl e
            | Inr r \<Rightarrow> Inr (x[j := r]))
      else Inl IndexError)"

text \<open>
  \<open>_preds[j]\<close>: the name \<open>_preds\<close> is bound by the first \<open>sess.run\<close> of the fill
  loop and survives from one batch to the next; reading it unbound raises
  UnboundLocalError, reading past its first dimension IndexError.
\<close>

definition get_pred :: "tensor list option \<Rightarrow> nat \<Rightarrow> error + tensor" where
  "get_pred preds j =
     (case preds of
        None \<Rightarrow> Inl UnboundLocalError
      | Some ps \<Rightarrow> if j < length ps then Inr (ps ! j) else Inl IndexError)"

section \<open>Post-processing of one output image (transfer, lines 132 to 145)\<close>

text \<open>
  \<open>x\<close> is the batch buffer, \<open>i\<close> the index of the batch in the outer loop and \<open>j\<close>
  the index of the image inside the batch.  The source reads \<open>x[i]\<close> for the threshold
  and for the blend factor, and \<open>x[j]\<close> for the compared pixels.
\<close>

definition crop_to :: "tensor \<Rightarrow> tensor \<Rightarrow> tensor" where
  "crop_to other img =
     (if shape other \<noteq> shape img then crop img (height other) (width other) else img)"

definition apply_mask :: "tensor list \<Rightarrow> nat \<Rightarrow> nat \<Rightarrow> tensor \<Rightarrow> error + tensor" where
  "apply_mask x i j img =
     (case get_row x i of
        Inl e \<Rightarrow> Inl e
      | Inr xi \<Rightarrow>
         (case np_max xi of
            Inl e \<Rightarrow> Inl e
          | Inr m \<Rightarrow>
             (case get_row x j of
                Inl e \<Rightarrow> Inl e
              | Inr xj \<Rightarrow>
                 (let thr = m * (1 / 100);
                      inmask = np_where_gt xj thr
                  in np_multiply inmask (crop_to inmask img)))))"

definition apply_blend :: "tensor list \<Rightarrow> nat \<Rightarrow> real \<Rightarrow> tensor \<Rightarrow> error + tensor" where
  "apply_blend x i blend img =
     (case get_row x i of
        Inl e \<Rightarrow> Inl e
      | Inr xi \<Rightarrow>
         (let inimg = scale xi blend
          in np_multiply inimg (crop_to inimg img)))"

definition post_image ::
  "tensor list \<Rightarrow> tensor list option \<Rightarrow> nat \<Rightarrow> nat \<Rightarrow> int \<Rightarrow> real \<Rightarrow> error + tensor" where
  "post_image x preds i j msk blend =
     (case get_pred preds j of
        Inl e \<Rightarrow> Inl e
      | Inr p \<Rightarrow>
         (case (if msk = 1 then apply_mask x i j (clip_uint8 p) else Inr (clip_uint8 p)) of
            Inl e \<Rightarrow> Inl e
          | Inr img \<Rightarrow> if blend > 0 then apply_blend x i blend img else Inr img))"

section \<open>The file system, the library calls and their trace\<close>

text \<open>
  The file system holds the bytes of every file and the set of directories.  The calls
  into scipy, TensorFlow and the operating system are parameters of the model: each one
  may raise.  \<open>decode\<close> is the decoding done by \<open>imread(src, mode='RGB')\<close>, \<open>encode\<close>
  the writing of an array of 8-bit values as an image file, the last step of \<open>imsave\<close>;
  \<open>restore\<close> builds the graph of \<open>transform.net\<close> on a
  placeholder of the given batch shape in the session of the given device and restores
  the checkpoint; \<open>net\<close> is \<open>sess.run(preds, feed_dict={img_placeholder: x})\<close> in that
  session.
\<close>

record fs =
  files :: "string \<rightharpoonup> nat list"
  dirs :: "string set"

record env =
  decode :: "nat list \<Rightarrow> error + tensor"
  encode :: "string \<Rightarrow> tensor \<Rightarrow> error + nat list"
  restore :: "string \<Rightarrow> string \<Rightarrow> nat \<times> shape \<Rightarrow> error option"
  net :: "string \<Rightarrow> string \<Rightarrow> tensor list \<Rightarrow> error + tensor list"
  makedirs :: "string \<Rightarrow> error option"
  walk :: "fs \<Rightarrow> string \<Rightarrow> string list"
  glob :: "fs \<Rightarrow> string \<Rightarrow> string list"
  join :: "string \<Rightarrow> string \<Rightarrow> string"
  basename :: "string \<Rightarrow> string"
  splitext :: "string \<Rightarrow> string \<times> string"

text \<open>
  A call emits the events of its library calls, in order; the file system after the call
  is the one before it with the events applied.  A call that raises has still emitted the
  events before the exception: files written before a failure stay written.
\<close>

datatype event =
    Read string
  | Restore string string
  | Run string
  | Write string "nat list"
  | Makedirs string
  | Print string

fun apply_event :: "event \<Rightarrow> fs \<Rightarrow> fs" where
  "apply_event (Write p b) s = s\<lparr>files := (files s)(p \<mapsto> b)\<rparr>"
| "apply_event (Makedirs p) s = s\<lparr>dirs := insert p (dirs s)\<rparr>"
| "apply_event _ s = s"

definition apply_events :: "event list \<Rightarrow> fs \<Rightarrow> fs" where
  "apply_events t s = fold apply_event t s"

fun written :: "event list \<Rightarrow> string list" where
  "written [] = []"
| "written (Write p b # t) = p # written t"
| "written (_ # t) = written t"

fun reads :: "event list \<Rightarrow> string list" where
  "reads [] = []"
| "reads (Read p # t) = p # reads t"
| "reads (_ # t) = reads t"

definition imread :: "env \<Rightarrow> fs \<Rightarrow> string \<Rightarrow> error + tensor" where
  "imread E s src = (case files s src of None \<Rightarrow> Inl IOError | Some b \<Rightarrow> decode E b)"

text \<open>\<open>np.dstack((img, img, img))\<close> of a three-dimensional array: three copies along the
  channel axis.\<close>

definition dstack3 :: "tensor \<Rightarrow> tensor" where
  "dstack3 img = \<lparr>shape = (height img, width img, 3 * channels img),
     elem = (\<lambda>i j k. elem img i j (k mod channels img))\<rparr>"

text \<open>read\_img (lines 73 to 78).  An image decoded with \<open>mode='RGB'\<close> has three
  dimensions, so of the test \<open>len(img.shape) == 3 and img.shape[2] == 3\<close> the channel
  count is what can fail.\<close>

definition read_img :: "env \<Rightarrow> fs \<Rightarrow> string \<Rightarrow> error + tensor" where
  "read_img E s src =
     (case imread E s src of
        Inl e \<Rightarrow> Inl e
      | Inr img \<Rightarrow> Inr (if \<not> (channels img = 3) then dstack3 img else img))"

section \<open>transfer: the per-shape batch runner\<close>

text \<open>
  The fill loop of one batch (lines 126 to 128): every image read is put into row \<open>j\<close>
  of the buffer and the network is run on the whole buffer after each of them.
\<close>

fun fill_batch ::
  "env \<Rightarrow> string \<Rightarrow> string \<Rightarrow> fs \<Rightarrow> nat \<Rightarrow> string list \<Rightarrow> tensor list \<Rightarrow> tensor list option
     \<Rightarrow> (error + tensor list \<times> tensor list option) \<times> event list" where
  "fill_batch E ctx model s j [] x preds = (Inr (x, preds), [])"
| "fill_batch E ctx model s j (path_in # rest) x preds =
     (case read_img E s path_in of
        Inl e \<Rightarrow> (Inl e, [Read path_in])
      | Inr img \<Rightarrow>
         (case set_row x j img of
            Inl e \<Rightarrow> (Inl e, [Read path_in])
          | Inr x' \<Rightarrow>
             (case net E ctx model x' of
                Inl e \<Rightarrow> (Inl e, [Read path_in, Run ctx])
              | Inr p \<Rightarrow>
                 (case fill_batch E ctx model s (Suc j) rest x' (Some p) of
                    (r, t) \<Rightarrow> (r, Read path_in # Run ctx # t)))))"

text \<open>
  \<open>scipy.misc.imsave(name, arr)\<close> is \<open>toimage(arr, channel_axis=2)\<close> followed by the
  writing of the file.  toimage rejects an array whose last axis has neither 3 nor 4
  entries, and passes every array that is not of type uint8 through \<open>bytescale\<close>, which
  maps the least element to 0 and the greatest to 255:
  \<open>((data - cmin) * (255 / cscale)).clip(0, 255) + 0.5\<close>, cast to uint8, where
  \<open>cscale\<close> is \<open>cmax - cmin\<close>, or 1 when that is 0.
\<close>

definition bytescale :: "tensor \<Rightarrow> error + tensor" where
  "bytescale data =
     (case np_min data of
        Inl e \<Rightarrow> Inl e
      | Inr cmin \<Rightarrow>
         (case np_max data of
            Inl e \<Rightarrow> Inl e
          | Inr cmax \<Rightarrow>
             if cmax - cmin < 0 then Inl ValueError
             else
               (let cscale = (if cmax - cmin = 0 then 1 else cmax - cmin);
                    scale = 255 / cscale
                in Inr \<lparr>shape = shape data,
                     elem = (\<lambda>i j k.
                       of_int \<lfloor>min 255 (max 0 ((elem data i j k - cmin) * scale)) + 1 / 2\<rfloor>)\<rparr>)))"

definition imsave :: "env \<Rightarrow> string \<Rightarrow> bool \<Rightarrow> tensor \<Rightarrow> error + nat list" where
  "imsave E name is_uint8 arr =
     (if channels arr = 3 \<or> channels arr = 4
      then (if is_uint8 then encode E name arr
            else (case bytescale arr of
                    Inl e \<Rightarrow> Inl e
                  | Inr bytedata \<Rightarrow> encode E name bytedata))
      else Inl ValueError)"

text \<open>
  The save loop of one batch (lines 131 to 147).  The array saved is of type uint8 when
  neither the mask nor the blend has been applied: the product with the mask is int64,
  the product with the blended input is a float array.
\<close>

fun save_batch ::
  "env \<Rightarrow> tensor list \<Rightarrow> tensor list option \<Rightarrow> int \<Rightarrow> real \<Rightarrow> nat \<Rightarrow> nat \<Rightarrow> string list
     \<Rightarrow> error option \<times> event list" where
  "save_batch E x preds msk blend i j [] = (None, [])"
| "save_batch E x preds msk blend i j (path_out # rest) =
     (case post_image x preds i j msk blend of
        Inl e \<Rightarrow> (Some e, [])
      | Inr img \<Rightarrow>
         (case imsave E path_out (msk \<noteq> 1 \<and> \<not> blend > 0) img of
            Inl e \<Rightarrow> (Some e, [])
          | Inr b \<Rightarrow>
             (case save_batch E x preds msk blend i (Suc j) rest of
                (r, t) \<Rightarrow> (r, Write path_out b # t))))"

text \<open>
  The loop over the batches (lines 118 to 147): \<open>i\<close> is the index of the batch and \<open>n\<close>
  the number of iterations still to run; \<open>preds\<close> is the value of \<open>_preds\<close> left by the
  batches before.
\<close>

fun run_batches ::
  "env \<Rightarrow> string \<Rightarrow> string \<Rightarrow> string list \<Rightarrow> string list \<Rightarrow> shape \<Rightarrow> nat \<Rightarrow> int \<Rightarrow> real
     \<Rightarrow> nat \<Rightarrow> nat \<Rightarrow> tensor list option \<Rightarrow> fs \<Rightarrow> error option \<times> event list" where
  "run_batches E ctx model data_in paths_out img_shape b msk blend i 0 preds s = (None, [])"
| "run_batches E ctx model data_in paths_out img_shape b msk blend i (Suc n) preds s =
     (let pos = i * b;
          curr_batch_out = take b (drop pos paths_out);
          curr_batch_in = take b (drop pos data_in);
          x = replicate b (zeros img_shape)
      in case fill_batch E ctx model s 0 curr_batch_in x preds of
           (Inl e, t) \<Rightarrow> (Some e, t)
         | (Inr (x', preds'), t) \<Rightarrow>
            (case save_batch E x' preds' msk blend i 0 curr_batch_out of
               (Some e, t') \<Rightarrow> (Some e, t @ t')
             | (None, t') \<Rightarrow>
                (case run_batches E ctx model data_in paths_out img_shape b msk blend
                        (Suc i) n preds' (apply_events (t @ t') s) of
                   (r, t'') \<Rightarrow> (r, t @ t' @ t''))))"

text \<open>
  The body of transfer up to the end of the batch loop (lines 101 to 147).  The first
  input is read for its shape (IndexError on an empty list); \<open>tf.placeholder\<close> rejects a
  negative batch dimension with ValueError; the model is restored; the number of
  iterations is \<open>int(len(paths_out) / batch_size)\<close>, ZeroDivisionError when the batch size
  is 0.
\<close>

definition transfer_batches ::
  "env \<Rightarrow> string \<Rightarrow> string list \<Rightarrow> string list \<Rightarrow> string \<Rightarrow> int \<Rightarrow> int \<Rightarrow> real \<Rightarrow> fs
     \<Rightarrow> error option \<times> event list" where
  "transfer_batches E ctx data_in paths_out model_path batch_size msk blend s =
     (case data_in of
        [] \<Rightarrow> (Some IndexError, [])
      | src # _ \<Rightarrow>
         (case read_img E s src of
            Inl e \<Rightarrow> (Some e, [Read src])
          | Inr img \<Rightarrow>
             if batch_size < 0 then (Some ValueError, [Read src])
             else
               (case restore E ctx model_path (nat batch_size, shape img) of
                  Some e \<Rightarrow> (Some e, [Read src, Restore ctx model_path])
                | None \<Rightarrow>
                   if batch_size = 0
                   then (Some ZeroDivisionError, [Read src, Restore ctx model_path])
                   else
                     (case run_batches E ctx model_path data_in paths_out (shape img)
                             (nat batch_size) msk blend 0
                             (length paths_out div nat batch_size) None s of
                        (r, t) \<Rightarrow> (r, Read src # Restore ctx model_path # t)))))"

text \<open>
  transfer (lines 81 to 155).  \<open>ev\<close> is the global function \<open>eval\<close> that the last
  statement calls on the images left over; it gets the same model, device, batch size,
  mask and blend.  A result \<open>None\<close> is a call that does not return.
\<close>

type_synonym result = "error option \<times> event list"

type_synonym evaluator =
  "string list \<Rightarrow> string list \<Rightarrow> string \<Rightarrow> string \<Rightarrow> int \<Rightarrow> int \<Rightarrow> real \<Rightarrow> fs \<Rightarrow> result option"

definition transfer ::
  "evaluator \<Rightarrow> env \<Rightarrow> string \<Rightarrow> string list \<Rightarrow> string list \<Rightarrow> string \<Rightarrow> string \<Rightarrow> int \<Rightarrow> int
     \<Rightarrow> real \<Rightarrow> fs \<Rightarrow> result option" where
  "transfer ev E ctx data_in paths_out model_path device batch_size msk blend s =
     (case transfer_batches E ctx data_in paths_out model_path batch_size msk blend s of
        (Some e, t) \<Rightarrow> Some (Some e, t)
      | (None, t) \<Rightarrow>
         (let num_iters = length paths_out div nat batch_size;
              remaining_in = drop (num_iters * nat batch_size) data_in;
              remaining_out = drop (num_iters * nat batch_size) paths_out
          in if length remaining_in > 0
             then (case ev remaining_in remaining_out model_path device batch_size msk blend
                          (apply_events t s) of
                     None \<Rightarrow> None
                   | Some (r, t') \<Rightarrow> Some (r, t @ t'))
             else Some (None, t)))"

section \<open>eval: the device fallback\<close>

text \<open>
  eval (lines 158 to 182), with the depth of the recursion through transfer bounded by
  the first argument.  The batch size is clamped first; the work is tried in a session on
  \<open>device\<close>; a ResourceExhaustedError, and nothing else, is caught, and the same call of
  transfer is made in a session on \<open>/cpu:0\<close>, on the file system the failed attempt
  left.  The message printed before the second attempt is an event of the trace.  Building
  the graphs and sessions themselves is taken not to raise.
\<close>

definition cpu_message :: string where
  "cpu_message = ''Not enough memory on GPU will run on CPU instead!''"

primrec eval ::
  "nat \<Rightarrow> env \<Rightarrow> string list \<Rightarrow> string list \<Rightarrow> string \<Rightarrow> string \<Rightarrow> int \<Rightarrow> int \<Rightarrow> real \<Rightarrow> fs
     \<Rightarrow> result option" where
  "eval 0 = (\<lambda>E data_in paths_out model_path device batch_size msk blend s. None)"
| "eval (Suc fuel) =
     (\<lambda>E data_in paths_out model_path device batch_size msk blend s.
        (let batch_size' = min (int (length paths_out)) batch_size
         in case transfer (eval fuel E) E device data_in paths_out model_path device
                   batch_size' msk blend s of
              None \<Rightarrow> None
            | Some (Some ResourceExhaustedError, t) \<Rightarrow>
               (case transfer (eval fuel E) E ''/cpu:0'' data_in paths_out model_path device
                       batch_size' msk blend (apply_events (t @ [Print cpu_message]) s) of
                  None \<Rightarrow> None
                | Some (r, t') \<Rightarrow> Some (r, t @ Print cpu_message # t'))
            | Some r \<Rightarrow> Some r))"

section \<open>eval\_mul\_dims: grouping by shape\<close>

text \<open>
  The key of a group is the string \<open>"%dx%dx%d" % shape\<close>: the three dimensions in
  decimal, separated by the letter x.
\<close>

definition digit :: "nat \<Rightarrow> char" where
  "digit d = ''0123456789'' ! d"

fun dec :: "nat \<Rightarrow> string" where
  "dec n = (if n < 10 then [digit n] else dec (n div 10) @ [digit (n mod 10)])"

definition fmt_shape :: "shape \<Rightarrow> string" where
  "fmt_shape sh = (case sh of (h, w, c) \<Rightarrow> dec h @ ''x'' @ dec w @ ''x'' @ dec c)"

text \<open>
  A \<open>defaultdict(list)\<close> is an association list with one entry per key, in the order
  in which the keys were first used.  \<open>d[k].append(v)\<close> and \<open>d[k]\<close>:
\<close>

type_synonym dict = "(string \<times> string list) list"

definition dd_append :: "dict \<Rightarrow> string \<Rightarrow> string \<Rightarrow> dict" where
  "dd_append d k v =
     (if k \<in> fst ` set d
      then map (\<lambda>(k', vs). if k' = k then (k', vs @ [v]) else (k', vs)) d
      else d @ [(k, [v])])"

definition dd_get :: "dict \<Rightarrow> string \<Rightarrow> string list" where
  "dd_get d k = (case map_of d k of None \<Rightarrow> [] | Some vs \<Rightarrow> vs)"

definition get_item :: "string list \<Rightarrow> nat \<Rightarrow> error + string" where
  "get_item xs i = (if i < length xs then Inr (xs ! i) else Inl IndexError)"

text \<open>The first loop (lines 193 to 200): \<open>i\<close> is the index, \<open>n\<close> the number of
  iterations still to run.\<close>

fun group_shapes ::
  "env \<Rightarrow> fs \<Rightarrow> string list \<Rightarrow> string list \<Rightarrow> nat \<Rightarrow> nat \<Rightarrow> dict \<times> dict
     \<Rightarrow> (error + dict \<times> dict) \<times> event list" where
  "group_shapes E s in_path out_path i 0 d = (Inr d, [])"
| "group_shapes E s in_path out_path i (Suc n) d =
     (case get_item in_path i of
        Inl e \<Rightarrow> (Inl e, [])
      | Inr in_image \<Rightarrow>
         (case get_item out_path i of
            Inl e \<Rightarrow> (Inl e, [])
          | Inr out_image \<Rightarrow>
             (case imread E s in_image of
                Inl e \<Rightarrow> (Inl e, [Read in_image])
              | Inr img \<Rightarrow>
                 (case group_shapes E s in_path out_path (Suc i) n
                         (dd_append (fst d) (fmt_shape (shape img)) in_image,
                          dd_append (snd d) (fmt_shape (shape img)) out_image) of
                    (r, t) \<Rightarrow> (r, Read in_image # t)))))"

text \<open>The second loop (lines 202 to 205), over the keys of \<open>in_path_of_shape\<close>.\<close>

fun eval_groups ::
  "evaluator \<Rightarrow> string list \<Rightarrow> dict \<Rightarrow> dict \<Rightarrow> string \<Rightarrow> string \<Rightarrow> int \<Rightarrow> int \<Rightarrow> real \<Rightarrow> fs
     \<Rightarrow> result option" where
  "eval_groups ev [] din dout model_path device batch_size msk blend s = Some (None, [])"
| "eval_groups ev (k # ks) din dout model_path device batch_size msk blend s =
     (case ev (dd_get din k) (dd_get dout k) model_path device batch_size msk blend s of
        None \<Rightarrow> None
      | Some (Some e, t) \<Rightarrow> Some (Some e, t)
      | Some (None, t) \<Rightarrow>
         (case eval_groups ev ks din dout model_path device batch_size msk blend
                 (apply_events t s) of
            None \<Rightarrow> None
          | Some (r, t') \<Rightarrow> Some (r, t @ t')))"

definition eval_mul_dims ::
  "nat \<Rightarrow> env \<Rightarrow> string list \<Rightarrow> string list \<Rightarrow> string \<Rightarrow> string \<Rightarrow> int \<Rightarrow> int \<Rightarrow> real \<Rightarrow> fs
     \<Rightarrow> result option" where
  "eval_mul_dims fuel E in_path out_path model_path device batch_size msk blend s =
     (case group_shapes E s in_path out_path 0 (length in_path) ([], []) of
        (Inl e, t) \<Rightarrow> Some (Some e, t)
      | (Inr (in_path_of_shape, out_path_of_shape), t) \<Rightarrow>
         (case eval_groups (eval fuel E) (map fst in_path_of_shape) in_path_of_shape
                 out_path_of_shape model_path device batch_size msk blend
                 (apply_events t s) of
            None \<Rightarrow> None
          | Some (r, t') \<Rightarrow> Some (r, t @ t')))"

section \<open>get\_opts and main\<close>

text \<open>
  The options as \<open>parser.parse_args()\<close> returns them: argparse has applied \<open>type=int\<close>
  and \<open>type=float\<close>, so the two \<open>isinstance\<close> assertions hold by typing.
\<close>

record opts =
  model_path :: string
  in_path :: string
  out_path :: string
  device :: string
  batch_size :: int
  mask_flag :: int
  blend :: real

definition path_exists :: "fs \<Rightarrow> string \<Rightarrow> bool" where
  "path_exists s p = (p \<in> dom (files s) \<or> p \<in> dirs s)"

definition isdir :: "fs \<Rightarrow> string \<Rightarrow> bool" where
  "isdir s p = (p \<in> dirs s)"

text \<open>The checks of get\_opts (lines 53 to 69), in the order of the source.\<close>

definition get_opts :: "env \<Rightarrow> fs \<Rightarrow> opts \<Rightarrow> (error + opts) \<times> event list" where
  "get_opts E s opts =
     (if \<not> path_exists s (in_path opts) then (Inl AssertionError, [])
      else
        (case (if CHR ''.'' \<notin> set (out_path opts) \<and> \<not> path_exists s (out_path opts)
               then (case makedirs E (out_path opts) of
                       Some e \<Rightarrow> (Some e, [Print ''creating output dir''])
                     | None \<Rightarrow>
                        (None, [Print ''creating output dir'', Makedirs (out_path opts)]))
               else (None, [])) of
           (Some e, t) \<Rightarrow> (Inl e, t)
         | (None, t) \<Rightarrow>
            if \<not> batch_size opts > 0 then (Inl AssertionError, t)
            else if \<not> (mask_flag opts = 1 \<or> mask_flag opts = 0) then (Inl AssertionError, t)
            else if \<not> blend opts \<le> 1 then (Inl AssertionError, t)
            else (Inr opts, t)))"

text \<open>The body of the loop over the models (lines 221 to 238).\<close>

definition model_paths :: "env \<Rightarrow> fs \<Rightarrow> opts \<Rightarrow> string list" where
  "model_paths E s opts =
     (if model_path opts = ''all''
      then map (\<lambda>i. join E ''pre-trained_models''
                      (takeWhile (\<lambda>c. c \<noteq> CHR ''.'') (basename E i)) @ ''.ckpt'')
             (glob E s ''styles/*.jpg'')
      else [join E ''pre-trained_models'' (model_path opts) @ ''.ckpt''])"

definition full_paths :: "env \<Rightarrow> fs \<Rightarrow> opts \<Rightarrow> string \<Rightarrow> string list \<times> string list" where
  "full_paths E s opts model =
     (if \<not> isdir s (in_path opts)
      then (let in_name = splitext E (basename E (in_path opts));
                out_name = fst in_name @ ''_'' @ fst (splitext E (basename E model)) @
                           snd in_name
            in ([in_path opts],
                [if isdir s (out_path opts) then join E (out_path opts) out_name
                 else out_path opts]))
      else (let fnames = walk E s (in_path opts)
            in (map (\<lambda>x. join E (in_path opts) x) fnames,
                map (\<lambda>x. if isdir s (out_path opts) then join E (out_path opts) x
                          else out_path opts) fnames)))"

fun run_models :: "nat \<Rightarrow> env \<Rightarrow> opts \<Rightarrow> string list \<Rightarrow> fs \<Rightarrow> result option" where
  "run_models fuel E opts [] s = Some (None, [])"
| "run_models fuel E opts (model # models) s =
     (case full_paths E s opts model of
        (full_in, full_out) \<Rightarrow>
          (case eval_mul_dims fuel E full_in full_out model (device opts) (batch_size opts)
                  (mask_flag opts) (blend opts) s of
             None \<Rightarrow> None
           | Some (Some e, t) \<Rightarrow> Some (Some e, t)
           | Some (None, t) \<Rightarrow>
              (case run_models fuel E opts models (apply_events t s) of
                 None \<Rightarrow> None
               | Some (r, t') \<Rightarrow> Some (r, t @ t'))))"

definition main :: "nat \<Rightarrow> env \<Rightarrow> opts \<Rightarrow> fs \<Rightarrow> result option" where
  "main fuel E args s =
     (case get_opts E s args of
        (Inl e, t) \<Rightarrow> Some (Some e, t)
      | (Inr opts, t) \<Rightarrow>
         (case run_models fuel E opts (model_paths E (apply_events t s) opts)
                 (apply_events t s) of
            None \<Rightarrow> None
          | Some (Some e, t') \<Rightarrow> Some (Some e, t @ t')
          | Some (None, t') \<Rightarrow> Some (None, t @ t' @ [Print ''Painting done''])))"

text \<open>The key under which eval\_mul\_dims files an input path: the formatted shape of the
  image read from it.\<close>

definition shape_key :: "env \<Rightarrow> fs \<Rightarrow> string \<Rightarrow> string" where
  "shape_key E s q = (case imread E s q of Inl e \<Rightarrow> [] | Inr img \<Rightarrow> fmt_shape (shape img))"

text \<open>The files a trace writes, each with the bytes of its last write.\<close>

fun last_writes :: "event list \<Rightarrow> (string \<rightharpoonup> nat list)" where
  "last_writes [] = Map.empty"
| "last_writes (Write p b # t) = [p \<mapsto> b] ++ last_writes t"
| "last_writes (_ # t) = last_writes t"

text \<open>A trace without compute: no image read, no model restored or run, no output
  written.\<close>

fun no_compute :: "event list \<Rightarrow> bool" where
  "no_compute [] = True"
| "no_compute (Print m # t) = no_compute t"
| "no_compute (Makedirs p # t) = no_compute t"
| "no_compute (_ # t) = False"

section \<open>A small concrete environment\<close>

text \<open>
  An environment on which the model can be run: a file of bytes \<open>b\<close> decodes to an image
  of one row, \<open>length b\<close> columns and three equal channels; an array of 8-bit values is
  written as the list of its elements; the network adds a tenth of the input to 200, and exhausts the
  memory of \<open>/gpu:0\<close> for the model named big.
\<close>

definition demo_decode :: "nat list \<Rightarrow> error + tensor" where
  "demo_decode b = Inr \<lparr>shape = (1, length b, 3),
     elem = (\<lambda>i j k. if j < length b then real (b ! j) else 0)\<rparr>"

definition demo_encode :: "string \<Rightarrow> tensor \<Rightarrow> error + nat list" where
  "demo_encode p t = Inr (map (\<lambda>v. nat \<lfloor>v\<rfloor>) (elems t))"

definition demo_net :: "string \<Rightarrow> string \<Rightarrow> tensor list \<Rightarrow> error + tensor list" where
  "demo_net ctx model x =
     (if ctx = ''/gpu:0'' \<and> model = ''big'' then Inl ResourceExhaustedError
      else Inr (map (\<lambda>r. \<lparr>shape = shape r, elem = (\<lambda>i j k. 200 + elem r i j k / 10)\<rparr>) x))"

definition demo_env :: env where
  "demo_env = \<lparr>decode = demo_decode, encode = demo_encode,
     restore = (\<lambda>ctx model bs. None), net = demo_net,
     makedirs = (\<lambda>p. None), walk = (\<lambda>s p. []), glob = (\<lambda>s p. []),
     join = (\<lambda>a b. a @ ''/'' @ b), basename = (\<lambda>p. p), splitext = (\<lambda>p. (p, []))\<rparr>"

definition demo_fs :: fs where
  "demo_fs = \<lparr>files = [''a'' \<mapsto> [0, 0], ''b'' \<mapsto> [1, 255], ''c'' \<mapsto> [7, 9], ''d'' \<mapsto> [5]],
     dirs = {}\<rparr>"

text \<open>Two more directories of images: a black image and one with the pixels 1, 255 and
  0; and seven images of one shape.\<close>

definition demo_pair_fs :: fs where
  "demo_pair_fs = \<lparr>files = [''z'' \<mapsto> [0, 0, 0], ''e'' \<mapsto> [1, 255, 0]], dirs = {}\<rparr>"

definition demo_seven_fs :: fs where
  "demo_seven_fs = \<lparr>files = [''i1'' \<mapsto> [10, 20], ''i2'' \<mapsto> [10, 20], ''i3'' \<mapsto> [10, 20],
     ''i4'' \<mapsto> [10, 20], ''i5'' \<mapsto> [10, 20], ''i6'' \<mapsto> [10, 20], ''i7'' \<mapsto> [10, 20]],
     dirs = {}\<rparr>"

definition demo_opts :: opts where
  "demo_opts = \<lparr>model_path = ''m'', in_path = ''a'', out_path = ''out.jpg'',
     device = ''/gpu:0'', batch_size = 1, mask_flag = 0, blend = 0\<rparr>"

definition const_img :: "real \<Rightarrow> tensor" where
  "const_img v = \<lparr>shape = (1, 1, 3), elem = (\<lambda>i j k. v)\<rparr>"

section \<open>Basic facts about traces and the recursion\<close>

lemma apply_events_append: "apply_events (t @ t') s = apply_events t' (apply_events t s)"
  by (simp add: apply_events_def)

lemma written_append: "written (t @ t') = written t @ written t'"
  by (induction t rule: written.induct) simp_all

lemma reads_append: "reads (t @ t') = reads t @ reads t'"
  by (induction t rule: reads.induct) simp_all

lemma files_apply_events: "files (apply_events t s) = files s ++ last_writes t"
proof (induction t arbitrary: s)
  case Nil
  then show ?case by (simp add: apply_events_def)
next
  case (Cons e t)
  have step: "apply_events (e # t) s = apply_events t (apply_event e s)"
    by (simp add: apply_events_def)
  show ?case unfolding step Cons.IH
    by (cases e) (simp_all add: map_add_def fun_eq_iff split: option.splits)
qed

lemma dom_last_writes: "dom (last_writes t) = set (written t)"
  by (induction t rule: last_writes.induct) auto

text \<open>The equation of eval with the handler written as a conditional.\<close>

lemma eval_Suc:
  "eval (Suc fuel) E d p mp dev B msk bl s =
     (case transfer (eval fuel E) E dev d p mp dev (min (int (length p)) B) msk bl s of
        None \<Rightarrow> None
      | Some (e, t) \<Rightarrow>
         if e = Some ResourceExhaustedError
         then map_option (\<lambda>(r, t'). (r, t @ Print cpu_message # t'))
                (transfer (eval fuel E) E ''/cpu:0'' d p mp dev (min (int (length p)) B)
                   msk bl (apply_events (t @ [Print cpu_message]) s))
         else Some (e, t))"
  by (simp add: Let_def split: option.splits prod.splits error.splits)

lemma transfer_batches_ok:
  assumes "transfer_batches E ctx d p mp b msk bl s = (None, t)"
  shows "0 < b \<and> d \<noteq> []"
  using assms unfolding transfer_batches_def
  by (auto split: list.splits sum.splits if_splits option.splits prod.splits)

text \<open>transfer fails to return only when its call of eval on the leftover does.\<close>

lemma transfer_None:
  assumes "transfer ev E ctx d p mp dev b msk bl s = None"
  shows "0 < b \<and> drop (length p div nat b * nat b) d \<noteq> [] \<and>
         (\<exists>s'. ev (drop (length p div nat b * nat b) d) (drop (length p div nat b * nat b) p)
                 mp dev b msk bl s' = None)"
  using assms transfer_batches_ok[of E ctx d p mp b msk bl s] unfolding transfer_def
  by (auto simp: Let_def split: prod.splits option.splits if_splits)

lemma remaining_shorter:
  assumes "0 < b" "b \<le> int (length p)" "d \<noteq> []"
  shows "length (drop (length p div nat b * nat b) d) < length d"
proof -
  have "nat b \<le> length p" "0 < nat b" using assms by auto
  then have "1 \<le> length p div nat b"
    by (simp add: div_greater_zero_iff Suc_leI)
  then have "nat b \<le> length p div nat b * nat b"
    by (metis mult.commute mult_le_mono2 nat_mult_1_right)
  with \<open>0 < nat b\<close> assms(3) show ?thesis by (cases d) auto
qed

lemma transfer_cong_shorter:
  assumes "b \<le> int (length p)"
      and "\<And>d' p' s'. length d' < length d \<Longrightarrow>
             ev d' p' mp dev b msk bl s' = ev' d' p' mp dev b msk bl s'"
  shows "transfer ev E ctx d p mp dev b msk bl s = transfer ev' E ctx d p mp dev b msk bl s"
proof (cases "transfer_batches E ctx d p mp b msk bl s")
  case (Pair e t)
  show ?thesis
  proof (cases e)
    case None
    with Pair have ok: "0 < b" "d \<noteq> []" using transfer_batches_ok by blast+
    have "length (drop (length p div nat b * nat b) d) < length d"
      using remaining_shorter[OF ok(1) assms(1) ok(2)] .
    then show ?thesis
      using Pair None assms(2) by (simp add: transfer_def Let_def)
  next
    case (Some a)
    with Pair show ?thesis by (simp add: transfer_def)
  qed
qed

lemma eval_returns:
  "length d < fuel \<Longrightarrow> eval fuel E d p mp dev B msk bl s \<noteq> None"
proof (induction fuel arbitrary: d p B s)
  case 0
  then show ?case by simp
next
  case (Suc fuel)
  let ?b = "min (int (length p)) B"
  have nn: "transfer (eval fuel E) E ctx d p mp dev ?b msk bl s' \<noteq> None" for ctx s'
  proof
    assume a: "transfer (eval fuel E) E ctx d p mp dev ?b msk bl s' = None"
    from transfer_None[OF a] obtain s'' where
      b: "0 < ?b" and ne: "drop (length p div nat ?b * nat ?b) d \<noteq> []" and
      n: "eval fuel E (drop (length p div nat ?b * nat ?b) d)
            (drop (length p div nat ?b * nat ?b) p) mp dev ?b msk bl s'' = None"
      by blast
    from ne have "d \<noteq> []" by auto
    from remaining_shorter[OF b _ this, of p]
    have "length (drop (length p div nat ?b * nat ?b) d) < length d" by simp
    with Suc.prems have "length (drop (length p div nat ?b * nat ?b) d) < fuel" by simp
    from Suc.IH[OF this] n show False by blast
  qed
  show ?case
    unfolding eval_Suc using nn
    by (auto split: option.splits prod.splits)
qed

declare eval.simps(2) [simp del]

lemma min_min_int: "min (a::int) (min a b) = min a b"
  by simp

section \<open>Termination of the remainder recursion\<close>

lemma transfer_exact_batch:
  assumes "nat b = length p" "length d = length p"
  shows "transfer ev E ctx d p mp dev b msk bl s \<noteq> None"
proof
  assume "transfer ev E ctx d p mp dev b msk bl s = None"
  from transfer_None[OF this] have "0 < b" "drop (length p div nat b * nat b) d \<noteq> []"
    by blast+
  moreover from \<open>0 < b\<close> assms have "length p div nat b * nat b = length p" by simp
  ultimately show False using assms by simp
qed

lemma eval_one_exact:
  assumes "length d = length p" "int (length p) \<le> B"
  shows "eval (Suc fuel) E d p mp dev B msk bl s \<noteq> None"
proof -
  have m: "min (int (length p)) B = int (length p)" using assms by simp
  have "transfer (eval fuel E) E ctx d p mp dev (int (length p)) msk bl s' \<noteq> None" for ctx s'
    using transfer_exact_batch[of "int (length p)" p d] assms by simp
  then show ?thesis unfolding eval_Suc m
    by (auto split: option.splits prod.splits)
qed

lemma eval_depth_two:
  assumes "length d = length p"
  shows "eval (Suc (Suc fuel)) E d p mp dev B msk bl s \<noteq> None"
proof -
  let ?b = "min (int (length p)) B"
  have nn: "transfer (eval (Suc fuel) E) E ctx d p mp dev ?b msk bl s' \<noteq> None" for ctx s'
  proof
    assume a: "transfer (eval (Suc fuel) E) E ctx d p mp dev ?b msk bl s' = None"
    let ?k = "length p div nat ?b * nat ?b"
    from transfer_None[OF a] obtain s'' where
      b: "0 < ?b" and
      n: "eval (Suc fuel) E (drop ?k d) (drop ?k p) mp dev ?b msk bl s'' = None"
      by blast
    have l: "length (drop ?k p) = length p mod nat ?b"
      by (simp add: minus_div_mult_eq_mod)
    have "length p mod nat ?b < nat ?b" using b by simp
    then have "int (length p mod nat ?b) < ?b"
      by (simp only: zless_nat_eq_int_zless)
    with l have "int (length (drop ?k p)) \<le> ?b" by simp
    moreover have "length (drop ?k d) = length (drop ?k p)" using assms by simp
    ultimately show False using eval_one_exact[of "drop ?k d" "drop ?k p" ?b] n by blast
  qed
  show ?thesis unfolding eval_Suc[of "Suc fuel" E d p mp dev B msk bl s] using nn
    by (auto split: option.splits prod.splits)
qed

text \<open>
  Claim C5.  The recursion from transfer to eval and back terminates: eval returns as
  soon as the bound on the depth of the recursion exceeds the length of the input list;
  for input and output lists of equal length a depth of two is enough, the leftover
  being one full batch of the second call; and transfer, called with the clamped batch
  size, calls eval only on a list strictly shorter than its own (an evaluator that does
  not return on any other list gives the same result).
\<close>

theorem eval_terminates:
  "(length d < fuel \<longrightarrow> (\<exists>r. eval fuel E d p mp dev B msk bl s = Some r)) \<and>
   (length d = length p \<longrightarrow> (\<exists>r. eval (Suc (Suc n)) E d p mp dev B msk bl s = Some r)) \<and>
   transfer ev E ctx d p mp dev (min (int (length p)) B) msk bl s =
     transfer (\<lambda>d' p' mp' dev' b' msk' bl' s'.
                 if length d' < length d then ev d' p' mp' dev' b' msk' bl' s' else None)
       E ctx d p mp dev (min (int (length p)) B) msk bl s"
proof (intro conjI impI)
  assume "length d < fuel"
  then show "\<exists>r. eval fuel E d p mp dev B msk bl s = Some r"
    using eval_returns[of d fuel E p mp dev B msk bl s] by auto
next
  assume "length d = length p"
  then show "\<exists>r. eval (Suc (Suc n)) E d p mp dev B msk bl s = Some r"
    using eval_depth_two[of d p n E mp dev B msk bl s] by auto
next
  show "transfer ev E ctx d p mp dev (min (int (length p)) B) msk bl s =
     transfer (\<lambda>d' p' mp' dev' b' msk' bl' s'.
                 if length d' < length d then ev d' p' mp' dev' b' msk' bl' s' else None)
       E ctx d p mp dev (min (int (length p)) B) msk bl s"
    by (rule transfer_cong_shorter) simp_all
qed

theorem eval_terminates_witness:
  "length [''a'', ''b'', ''c''] < (4::nat) \<and>
   length [''a'', ''b'', ''c''] = length [''oa'', ''ob'', ''oc''] \<and>
   (\<exists>r. eval 4 demo_env [''a'', ''b'', ''c''] [''oa'', ''ob'', ''oc''] ''m'' ''/gpu:0'' 2 0 0
          demo_fs = Some r) \<and>
   (\<exists>r. eval (Suc (Suc 0)) demo_env [''a'', ''b'', ''c''] [''oa'', ''ob'', ''oc''] ''m''
          ''/gpu:0'' 2 0 0 demo_fs = Some r)"
  using eval_terminates[of "[''a'', ''b'', ''c'']" 4 demo_env "[''oa'', ''ob'', ''oc'']"
      "''m''" "''/gpu:0''" 2 0 0 demo_fs 0]
  by simp

section \<open>Batch size and device fallback in eval\<close>

text \<open>
  Claim C8.  eval uses the batch size \<open>min(len(paths_out), batch_size)\<close>: a call with
  the requested size is the call with the clamped size, and the clamped value is the one
  passed to transfer both in the attempt on the configured device and in the attempt on
  the CPU.
\<close>

theorem eval_clamps_batch_size:
  "eval (Suc fuel) E d p mp dev B msk bl s =
     eval (Suc fuel) E d p mp dev (min (int (length p)) B) msk bl s \<and>
   eval (Suc fuel) E d p mp dev B msk bl s =
     (case transfer (eval fuel E) E dev d p mp dev (min (int (length p)) B) msk bl s of
        None \<Rightarrow> None
      | Some (e, t) \<Rightarrow>
         if e = Some ResourceExhaustedError
         then map_option (\<lambda>(r, t'). (r, t @ Print cpu_message # t'))
                (transfer (eval fuel E) E ''/cpu:0'' d p mp dev (min (int (length p)) B)
                   msk bl (apply_events (t @ [Print cpu_message]) s))
         else Some (e, t))"
  unfolding eval_Suc[of fuel E d p mp dev B msk bl s]
    eval_Suc[of fuel E d p mp dev "min (int (length p)) B" msk bl s] min_min_int
  by simp

theorem eval_clamps_batch_size_witness:
  "eval (Suc 1) demo_env [''a'', ''b''] [''oa'', ''ob''] ''m'' ''/gpu:0'' 7 0 0 demo_fs =
   eval (Suc 1) demo_env [''a'', ''b''] [''oa'', ''ob''] ''m'' ''/gpu:0'' 2 0 0 demo_fs"
  using eval_clamps_batch_size[of 1 demo_env "[''a'', ''b'']" "[''oa'', ''ob'']" "''m''"
      "''/gpu:0''" 7 0 0 demo_fs]
  by simp

text \<open>
  Claim C6.  eval runs transfer once in a session on the configured device.  If that
  attempt does not return, neither does eval; if it ends without
  ResourceExhaustedError, its result (success or any other error) is the result of eval;
  if it raises ResourceExhaustedError, the result of eval is the result of the same call
  of transfer in a session on \<open>/cpu:0\<close>, whatever it is: an error raised there,
  resource exhaustion included, is the error of eval.
\<close>

theorem eval_device_fallback:
  "(transfer (eval fuel E) E dev d p mp dev (min (int (length p)) B) msk bl s = None \<longrightarrow>
      eval (Suc fuel) E d p mp dev B msk bl s = None) \<and>
   (\<forall>e t. transfer (eval fuel E) E dev d p mp dev (min (int (length p)) B) msk bl s =
             Some (e, t) \<and> e \<noteq> Some ResourceExhaustedError \<longrightarrow>
      eval (Suc fuel) E d p mp dev B msk bl s = Some (e, t)) \<and>
   (\<forall>t. transfer (eval fuel E) E dev d p mp dev (min (int (length p)) B) msk bl s =
             Some (Some ResourceExhaustedError, t) \<longrightarrow>
      eval (Suc fuel) E d p mp dev B msk bl s =
        map_option (\<lambda>(r, t'). (r, t @ Print cpu_message # t'))
          (transfer (eval fuel E) E ''/cpu:0'' d p mp dev (min (int (length p)) B) msk bl
             (apply_events (t @ [Print cpu_message]) s)))"
  unfolding eval_Suc by simp

theorem eval_device_fallback_witness:
  "transfer (eval 0 demo_env) demo_env ''/gpu:0'' [''a''] [''oa''] ''big'' ''/gpu:0''
     (min (int (length [''oa''])) 1) 0 0 demo_fs =
     Some (Some ResourceExhaustedError,
           [Read ''a'', Restore ''/gpu:0'' ''big'', Read ''a'', Run ''/gpu:0'']) \<and>
   eval (Suc 0) demo_env [''a''] [''oa''] ''big'' ''/gpu:0'' 1 0 0 demo_fs =
     Some (None,
           [Read ''a'', Restore ''/gpu:0'' ''big'', Read ''a'', Run ''/gpu:0'',
            Print cpu_message,
            Read ''a'', Restore ''/cpu:0'' ''big'', Read ''a'', Run ''/cpu:0'',
            Write ''oa'' [200, 200, 200, 200, 200, 200]])"
proof -
  have p: "transfer (eval 0 demo_env) demo_env ''/gpu:0'' [''a''] [''oa''] ''big'' ''/gpu:0''
     (min (int (length [''oa''])) 1) 0 0 demo_fs =
     Some (Some ResourceExhaustedError,
           [Read ''a'', Restore ''/gpu:0'' ''big'', Read ''a'', Run ''/gpu:0''])"
    by code_simp
  have f: "transfer (eval 0 demo_env) demo_env ''/cpu:0'' [''a''] [''oa''] ''big'' ''/gpu:0''
     (min (int (length [''oa''])) 1) 0 0
     (apply_events ([Read ''a'', Restore ''/gpu:0'' ''big'', Read ''a'', Run ''/gpu:0''] @
        [Print cpu_message]) demo_fs) =
     Some (None, [Read ''a'', Restore ''/cpu:0'' ''big'', Read ''a'', Run ''/cpu:0'',
            Write ''oa'' [200, 200, 200, 200, 200, 200]])"
    by code_simp
  from eval_device_fallback[of 0 demo_env "''/gpu:0''" "[''a'']" "[''oa'']" "''big''" 1 0 0
      demo_fs] p
  have "eval (Suc 0) demo_env [''a''] [''oa''] ''big'' ''/gpu:0'' 1 0 0 demo_fs =
        map_option (\<lambda>(r, t'). (r, [Read ''a'', Restore ''/gpu:0'' ''big'', Read ''a'',
                      Run ''/gpu:0''] @ Print cpu_message # t'))
          (transfer (eval 0 demo_env) demo_env ''/cpu:0'' [''a''] [''oa''] ''big'' ''/gpu:0''
             (min (int (length [''oa''])) 1) 0 0
             (apply_events ([Read ''a'', Restore ''/gpu:0'' ''big'', Read ''a'',
                 Run ''/gpu:0''] @ [Print cpu_message]) demo_fs))"
    by blast
  with p f show ?thesis by simp
qed

section \<open>The index of the batch in the mask and the blend\<close>

lemma set_row_length: "set_row x j img = Inr x' \<Longrightarrow> length x' = length x"
  by (auto simp: set_row_def split: if_splits sum.splits)

lemma fill_batch_length:
  "fill_batch E ctx mp s j ps x preds = (Inr (x', preds'), t) \<Longrightarrow> length x' = length x"
proof (induction ps arbitrary: j x preds t)
  case Nil
  then show ?case by simp
next
  case (Cons a ps)
  then show ?case
    by (auto split: sum.splits prod.splits dest: set_row_length)
qed

lemma post_image_out_of_bounds:
  assumes "msk = 1 \<or> 0 < bl" "length x \<le> i" "get_pred preds j = Inr pr"
  shows "post_image x preds i j msk bl = Inl IndexError"
  using assms
  by (auto simp: post_image_def apply_mask_def apply_blend_def get_row_def)

lemma post_image_fails:
  assumes "msk = 1 \<or> 0 < bl" "length x \<le> i"
  shows "\<exists>e. post_image x preds i j msk bl = Inl e"
proof (cases "get_pred preds j")
  case (Inl a)
  then show ?thesis by (simp add: post_image_def)
next
  case (Inr b)
  then show ?thesis using post_image_out_of_bounds[OF assms] by blast
qed

lemma save_batch_fails:
  assumes "msk = 1 \<or> 0 < bl" "length x \<le> i" "ps \<noteq> []"
  shows "fst (save_batch E x preds msk bl i j ps) \<noteq> None"
proof -
  from assms(3) obtain q qs where ps: "ps = q # qs" by (cases ps) auto
  from post_image_fails[OF assms(1,2)] obtain e where
    "post_image x preds i j msk bl = Inl e" by blast
  then show ?thesis by (simp add: ps)
qed

lemma run_batches_step_fails:
  assumes "msk = 1 \<or> 0 < bl" "b \<le> i" "i * b < length p"  "0 < b"
  shows "fst (run_batches E ctx mp d p sh b msk bl i (Suc n) preds s) \<noteq> None"
proof (cases "fill_batch E ctx mp s 0 (take b (drop (i * b) d)) (replicate b (zeros sh)) preds")
  case (Pair r t)
  show ?thesis
  proof (cases r)
    case (Inl e)
    with Pair show ?thesis by (simp add: Let_def)
  next
    case (Inr xp)
    obtain x' preds' where xp: "xp = (x', preds')" by (cases xp)
    from Pair Inr xp have "length x' = b"
      using fill_batch_length by fastforce
    with assms have "length x' \<le> i" by simp
    moreover have "take b (drop (i * b) p) \<noteq> []" using assms by simp
    ultimately have "fst (save_batch E x' preds' msk bl i 0 (take b (drop (i * b) p))) \<noteq> None"
      using save_batch_fails assms(1) by blast
    with Pair Inr xp show ?thesis
      by (auto simp: Let_def split: prod.splits option.splits)
  qed
qed

lemma run_batches_fails:
  assumes "msk = 1 \<or> 0 < bl" "0 < b"
  shows "i \<le> b \<Longrightarrow> b < i + n \<Longrightarrow> b * b < length p \<Longrightarrow>
         fst (run_batches E ctx mp d p sh b msk bl i n preds s) \<noteq> None"
proof (induction n arbitrary: i preds s)
  case 0
  then show ?case by simp
next
  case (Suc n)
  show ?case
  proof (cases "i = b")
    case True
    then show ?thesis
      using run_batches_step_fails[OF assms(1), of b i p] Suc.prems assms(2) by simp
  next
    case False
    with Suc.prems have lt: "Suc i \<le> b" "b < Suc i + n" by simp_all
    have IH: "r \<noteq> None"
      if "run_batches E ctx mp d p sh b msk bl (Suc i) n preds' s' = (r, t)" for preds' s' r t
      using Suc.IH[OF lt Suc.prems(3), of preds' s'] that by simp
    show ?thesis
      using IH
      by (auto simp: Let_def split: prod.splits option.splits sum.splits)
  qed
qed

lemma transfer_batches_fails:
  assumes "msk = 1 \<or> 0 < bl" "0 < b" "nat b < length p div nat b"
  shows "fst (transfer_batches E ctx d p mp b msk bl s) \<noteq> None"
proof -
  have "nat b * nat b < nat b * (length p div nat b)"
    using assms(2,3) by simp
  also have "\<dots> \<le> length p" by simp
  finally have big: "nat b * nat b < length p" .
  have "r \<noteq> None"
    if "run_batches E ctx mp d p sh (nat b) msk bl 0 (length p div nat b) None s = (r, t)"
    for sh r t
    using run_batches_fails[OF assms(1), of "nat b" 0 "length p div nat b" p E ctx mp d sh None s]
      assms(2,3) big that
    by simp
  then show ?thesis
    unfolding transfer_batches_def
    by (auto split: list.splits sum.splits option.splits prod.splits)
qed

lemma bidx_in_range: "a < d \<Longrightarrow> bidx d a = a"
  by (auto simp: bidx_def)

lemma bdim_same: "bdim a a = Some a"
  by (simp add: bdim_def)

lemma np_multiply_same_shape:
  assumes "shape a = shape b"
  shows "\<exists>r. np_multiply a b = Inr r \<and> shape r = shape a \<and>
           (\<forall>i<height a. \<forall>j<width a. \<forall>k<channels a. elem r i j k = elem a i j k * elem b i j k)"
  using assms
  by (cases "shape a")
     (auto simp: np_multiply_def bdim_same height_def width_def channels_def bidx_in_range)

lemma post_image_mask_value:
  assumes "i < length x" "j < length x" "get_pred preds j = Inr pr"
    "shape (x ! i) = shape pr" "shape (x ! j) = shape pr" "np_max (x ! i) = Inr m"
  shows "\<exists>r. post_image x preds i j 1 0 = Inr r \<and> shape r = shape pr \<and>
           (\<forall>a<height pr. \<forall>c<width pr. \<forall>k<channels pr.
              elem r a c k =
                (if elem (x ! j) a c k > m * (1 / 100) then 1 else 0) *
                elem (clip_uint8 pr) a c k)"
proof -
  let ?inmask = "np_where_gt (x ! j) (m * (1 / 100))"
  have sh: "shape ?inmask = shape (clip_uint8 pr)"
    using assms(5) by (simp add: np_where_gt_def clip_uint8_def)
  from np_multiply_same_shape[OF sh] obtain r where
    r: "np_multiply ?inmask (clip_uint8 pr) = Inr r" "shape r = shape ?inmask"
       "\<forall>a<height ?inmask. \<forall>c<width ?inmask. \<forall>k<channels ?inmask.
          elem r a c k = elem ?inmask a c k * elem (clip_uint8 pr) a c k"
    by blast
  have "post_image x preds i j 1 0 = Inr r"
    using assms r(1) sh
    by (simp add: post_image_def apply_mask_def get_row_def crop_to_def Let_def)
  moreover have "shape r = shape pr" using r(2) assms(5) by (simp add: np_where_gt_def)
  moreover have "height ?inmask = height pr" "width ?inmask = width pr"
    "channels ?inmask = channels pr"
    using assms(5) by (simp_all add: np_where_gt_def height_def width_def channels_def)
  ultimately show ?thesis using r(3) by (auto simp: np_where_gt_def)
qed

lemma post_image_blend_value:
  assumes "i < length x" "get_pred preds j = Inr pr" "shape (x ! i) = shape pr" "0 < bl"
  shows "\<exists>r. post_image x preds i j 0 bl = Inr r \<and> shape r = shape pr \<and>
           (\<forall>a<height pr. \<forall>c<width pr. \<forall>k<channels pr.
              elem r a c k = elem (x ! i) a c k * bl * elem (clip_uint8 pr) a c k)"
proof -
  let ?inimg = "scale (x ! i) bl"
  have sh: "shape ?inimg = shape (clip_uint8 pr)"
    using assms(3) by (simp add: scale_def clip_uint8_def)
  from np_multiply_same_shape[OF sh] obtain r where
    r: "np_multiply ?inimg (clip_uint8 pr) = Inr r" "shape r = shape ?inimg"
       "\<forall>a<height ?inimg. \<forall>c<width ?inimg. \<forall>k<channels ?inimg.
          elem r a c k = elem ?inimg a c k * elem (clip_uint8 pr) a c k"
    by blast
  have "post_image x preds i j 0 bl = Inr r"
    using assms r(1) sh
    by (simp add: post_image_def apply_blend_def get_row_def crop_to_def Let_def)
  moreover have "shape r = shape pr" using r(2) assms(3) by (simp add: scale_def)
  moreover have "height ?inimg = height pr" "width ?inimg = width pr"
    "channels ?inimg = channels pr"
    using assms(3) by (simp_all add: scale_def height_def width_def channels_def)
  ultimately show ?thesis using r(3) by (auto simp: scale_def)
qed


text \<open>
  Claim C4.  The mask threshold and the blend factor read the batch buffer at the index
  \<open>i\<close> of the batch, not at the index \<open>j\<close> of the image.  With mask 1 or a positive
  blend, a call of transfer whose number of full batches exceeds the batch size fails;
  the access \<open>x[i]\<close> with \<open>i\<close> outside the buffer is an IndexError; and inside the
  buffer, for images and prediction of one shape, the mask compares the pixels of
  \<open>x[j]\<close> with one percent of the maximum of \<open>x[i]\<close>, and the blend multiplies the
  prediction by the pixels of \<open>x[i]\<close>.
\<close>

theorem batch_index_misuse:
  "((msk = 1 \<or> 0 < bl) \<and> 0 < b \<and> nat b < length p div nat b \<longrightarrow>
      (\<exists>e t. transfer ev E ctx d p mp dev b msk bl s = Some (Some e, t))) \<and>
   ((msk = 1 \<or> 0 < bl) \<and> length x \<le> i \<and> get_pred preds j = Inr pr \<longrightarrow>
      post_image x preds i j msk bl = Inl IndexError) \<and>
   (i < length x \<and> j < length x \<and> get_pred preds j = Inr pr \<and>
    shape (x ! i) = shape pr \<and> shape (x ! j) = shape pr \<and> np_max (x ! i) = Inr m \<longrightarrow>
      (\<exists>r. post_image x preds i j 1 0 = Inr r \<and> shape r = shape pr \<and>
           (\<forall>a<height pr. \<forall>c<width pr. \<forall>k<channels pr.
              elem r a c k =
                (if elem (x ! j) a c k > m * (1 / 100) then 1 else 0) *
                elem (clip_uint8 pr) a c k))) \<and>
   (i < length x \<and> get_pred preds j = Inr pr \<and> shape (x ! i) = shape pr \<and> 0 < bl \<longrightarrow>
      (\<exists>r. post_image x preds i j 0 bl = Inr r \<and> shape r = shape pr \<and>
           (\<forall>a<height pr. \<forall>c<width pr. \<forall>k<channels pr.
              elem r a c k = elem (x ! i) a c k * bl * elem (clip_uint8 pr) a c k)))"
proof (intro conjI impI)
  assume a: "(msk = 1 \<or> 0 < bl) \<and> 0 < b \<and> nat b < length p div nat b"
  then have "fst (transfer_batches E ctx d p mp b msk bl s) \<noteq> None"
    using transfer_batches_fails by blast
  then obtain e t where "transfer_batches E ctx d p mp b msk bl s = (Some e, t)"
    by (cases "transfer_batches E ctx d p mp b msk bl s") auto
  then show "\<exists>e t. transfer ev E ctx d p mp dev b msk bl s = Some (Some e, t)"
    by (simp add: transfer_def)
next
  assume "(msk = 1 \<or> 0 < bl) \<and> length x \<le> i \<and> get_pred preds j = Inr pr"
  then show "post_image x preds i j msk bl = Inl IndexError"
    using post_image_out_of_bounds by blast
next
  assume "i < length x \<and> j < length x \<and> get_pred preds j = Inr pr \<and>
    shape (x ! i) = shape pr \<and> shape (x ! j) = shape pr \<and> np_max (x ! i) = Inr m"
  then show "\<exists>r. post_image x preds i j 1 0 = Inr r \<and> shape r = shape pr \<and>
           (\<forall>a<height pr. \<forall>c<width pr. \<forall>k<channels pr.
              elem r a c k =
                (if elem (x ! j) a c k > m * (1 / 100) then 1 else 0) *
                elem (clip_uint8 pr) a c k)"
    using post_image_mask_value by blast
next
  assume "i < length x \<and> get_pred preds j = Inr pr \<and> shape (x ! i) = shape pr \<and> 0 < bl"
  then show "\<exists>r. post_image x preds i j 0 bl = Inr r \<and> shape r = shape pr \<and>
           (\<forall>a<height pr. \<forall>c<width pr. \<forall>k<channels pr.
              elem r a c k = elem (x ! i) a c k * bl * elem (clip_uint8 pr) a c k)"
    using post_image_blend_value by blast
qed

theorem batch_index_misuse_witness:
  "(\<exists>e t. transfer (eval 1 demo_env) demo_env ''/gpu:0'' [''a'', ''b''] [''oa'', ''ob''] ''m''
            ''/gpu:0'' 1 1 0 demo_fs = Some (Some e, t)) \<and>
   post_image [const_img 7] (Some [const_img 200, const_img 200]) 1 1 1 0 = Inl IndexError \<and>
   (\<exists>r. post_image [const_img 0, const_img 7] (Some [const_img 200, const_img 200]) 0 1 1 0
          = Inr r \<and> elem r 0 0 0 = 200) \<and>
   (\<exists>r. post_image [const_img 0, const_img 7] (Some [const_img 200, const_img 200]) 0 1 0 1
          = Inr r \<and> elem r 0 0 0 = 0)"
proof -
  let ?x = "[const_img 0, const_img 7]"
  let ?ps = "Some [const_img 200, const_img 200]"
  have g: "get_pred ?ps 1 = Inr (const_img 200)" by (simp add: get_pred_def)
  have m: "np_max (?x ! 0) = Inr 0"
    by code_simp
  note T = batch_index_misuse[of 1 0 1 "[''oa'', ''ob'']" "eval 1 demo_env" demo_env "''/gpu:0''"
      "[''a'', ''b'']" "''m''" "''/gpu:0''" demo_fs]
  have 1: "\<exists>e t. transfer (eval 1 demo_env) demo_env ''/gpu:0'' [''a'', ''b''] [''oa'', ''ob''] ''m''
            ''/gpu:0'' 1 1 0 demo_fs = Some (Some e, t)"
    using T[of "[]" 0 ?ps 0 "const_img 200" 0] by simp
  have 2: "post_image [const_img 7] (Some [const_img 200, const_img 200]) 1 1 1 0 = Inl IndexError"
    using batch_index_misuse[of 1 0 1 "[]" "eval 1 demo_env" demo_env "''/gpu:0''"
      "[]" "''m''" "''/gpu:0''" demo_fs "[const_img 7]" 1 ?ps 1 "const_img 200" 0] g
    by simp
  have 3: "\<exists>r. post_image ?x ?ps 0 1 1 0 = Inr r \<and> elem r 0 0 0 = 200"
    using batch_index_misuse[of 1 0 1 "[]" "eval 1 demo_env" demo_env "''/gpu:0''"
      "[]" "''m''" "''/gpu:0''" demo_fs ?x 0 ?ps 1 "const_img 200" 0] g m
    by (auto simp: const_img_def height_def width_def channels_def clip_uint8_def)
  have 4: "\<exists>r. post_image ?x ?ps 0 1 0 1 = Inr r \<and> elem r 0 0 0 = 0"
    using batch_index_misuse[of 0 1 1 "[]" "eval 1 demo_env" demo_env "''/gpu:0''"
      "[]" "''m''" "''/gpu:0''" demo_fs ?x 0 ?ps 1 "const_img 200" 0] g
    by (auto simp: const_img_def height_def width_def channels_def clip_uint8_def)
  from 1 2 3 4 show ?thesis by blast
qed

text \<open>
  Claim C2 says that with mask 1 every output pixel is zero where the pixel of the
  corresponding input is at most one percent of the maximum of that same input.  The
  code takes the maximum of \<open>x[i]\<close>: in a batch of the two images z (all 0) and e
  (pixels 1, 255 and 0), the threshold for e is one percent of the maximum of z, which is
  0, so the pixel 1 of e, below one percent of 255, passes the mask.  The masked product
  for e is 200, 225, 0, which imsave rescales: the file written for e has 227 at the
  pixel that the claim says is zero.
\<close>

theorem mask_threshold_from_other_image:
  "map_sum id (\<lambda>img. (np_max img, elem img 0 0 0)) (read_img demo_env demo_pair_fs ''e'') =
     Inr (Inr 255, 1) \<and>
   eval 2 demo_env [''z'', ''e''] [''oz'', ''oe''] ''m'' ''/gpu:0'' 2 1 0 demo_pair_fs =
     Some (None, [Read ''z'', Restore ''/gpu:0'' ''m'', Read ''z'', Run ''/gpu:0'',
       Read ''e'', Run ''/gpu:0'', Write ''oz'' [0, 0, 0, 0, 0, 0, 0, 0, 0],
       Write ''oe'' [227, 227, 227, 255, 255, 255, 0, 0, 0]])"
  by code_simp

text \<open>
  Claim C3 says that with a positive blend and mask 0 the output is the blend times the
  corresponding input times the clipped prediction.  The code multiplies by \<open>x[i]\<close>:
  in a batch of the two images a (all 0) and b (pixels 1 and 255) with blend 1, the
  output written for b is the product with a, all zero, and not the product with b.
\<close>

theorem blend_factor_from_other_image:
  "map_sum id (\<lambda>img. elem img 0 1 0) (read_img demo_env demo_fs ''b'') = Inr 255 \<and>
   eval 2 demo_env [''a'', ''b''] [''oa'', ''ob''] ''m'' ''/gpu:0'' 2 0 1 demo_fs =
     Some (None, [Read ''a'', Restore ''/gpu:0'' ''m'', Read ''a'', Run ''/gpu:0'',
       Read ''b'', Run ''/gpu:0'', Write ''oa'' [0, 0, 0, 0, 0, 0],
       Write ''ob'' [0, 0, 0, 0, 0, 0]])"
  by code_simp

section \<open>What a call of transfer reads and writes\<close>

lemma fill_batch_written: "fill_batch E ctx mp s j ps x preds = (r, t) \<Longrightarrow> written t = []"
proof (induction ps arbitrary: j x preds t)
  case Nil
  then show ?case by simp
next
  case (Cons a ps)
  then show ?case
    by (auto split: sum.splits prod.splits)
qed

lemma fill_batch_reads:
  "fill_batch E ctx mp s j ps x preds = (Inr xp, t) \<Longrightarrow> reads t = ps"
proof (induction ps arbitrary: j x preds t)
  case Nil
  then show ?case by simp
next
  case (Cons a ps)
  then show ?case
    by (auto split: sum.splits prod.splits)
qed

lemma save_batch_reads: "save_batch E x preds msk bl i j ps = (r, t) \<Longrightarrow> reads t = []"
proof (induction ps arbitrary: j t)
  case Nil
  then show ?case by simp
next
  case (Cons a ps)
  then show ?case
    by (auto split: sum.splits prod.splits)
qed

lemma save_batch_written:
  "save_batch E x preds msk bl i j ps = (None, t) \<Longrightarrow> written t = ps"
proof (induction ps arbitrary: j t)
  case Nil
  then show ?case by simp
next
  case (Cons a ps)
  then show ?case
    by (auto split: sum.splits prod.splits)
qed

lemma save_batch_written_subset:
  "save_batch E x preds msk bl i j ps = (r, t) \<Longrightarrow> set (written t) \<subseteq> set ps"
proof (induction ps arbitrary: j t)
  case Nil
  then show ?case by simp
next
  case (Cons a ps)
  then show ?case
    by (fastforce split: sum.splits prod.splits)
qed

lemma take_batches: "take b (drop k xs) @ take (n * b) (drop (b + k) xs) = take (b + n * b) (drop k xs)"
  by (simp add: take_add add.commute)

lemma run_batches_trace:
  "run_batches E ctx mp d p sh b msk bl i n preds s = (None, t) \<Longrightarrow>
     written t = take (n * b) (drop (i * b) p) \<and> reads t = take (n * b) (drop (i * b) d)"
proof (induction n arbitrary: i preds s t)
  case 0
  then show ?case by simp
next
  case (Suc n)
  from Suc.prems obtain x' preds' t1 t2 t3 where
    f: "fill_batch E ctx mp s 0 (take b (drop (i * b) d)) (replicate b (zeros sh)) preds =
          (Inr (x', preds'), t1)" and
    sv: "save_batch E x' preds' msk bl i 0 (take b (drop (i * b) p)) = (None, t2)" and
    r: "run_batches E ctx mp d p sh b msk bl (Suc i) n preds' (apply_events (t1 @ t2) s) =
          (None, t3)" and
    t: "t = t1 @ t2 @ t3"
    by (auto simp: Let_def split: prod.splits sum.splits option.splits)
  from Suc.IH[OF r] have
    "written t3 = take (n * b) (drop (b + i * b) p)" "reads t3 = take (n * b) (drop (b + i * b) d)"
    by simp_all
  then show ?case
    using fill_batch_written[OF f] fill_batch_reads[OF f] save_batch_written[OF sv]
      save_batch_reads[OF sv] t
    by (simp add: written_append reads_append take_batches)
qed

lemma transfer_batches_trace:
  assumes "transfer_batches E ctx d p mp b msk bl s = (None, t)"
  shows "written t = take (length p div nat b * nat b) p \<and>
         reads t = hd d # take (length p div nat b * nat b) d"
  using assms unfolding transfer_batches_def
  by (auto split: list.splits sum.splits option.splits prod.splits if_splits
      dest!: run_batches_trace)

lemma transfer_success:
  assumes "transfer ev E ctx d p mp dev b msk bl s = Some (None, t)"
  obtains t0 where "transfer_batches E ctx d p mp b msk bl s = (None, t0)"
    and "(drop (length p div nat b * nat b) d = [] \<and> t = t0) \<or>
         (drop (length p div nat b * nat b) d \<noteq> [] \<and>
          (\<exists>t'. ev (drop (length p div nat b * nat b) d) (drop (length p div nat b * nat b) p)
                  mp dev b msk bl (apply_events t0 s) = Some (None, t') \<and> t = t0 @ t'))"
  using assms unfolding transfer_def
  by (auto simp: Let_def split: prod.splits option.splits if_splits)

lemma transfer_written_exact:
  assumes tr: "transfer ev E ctx d p mp dev b msk bl s = Some (None, t)"
    and al: "length d = length p"
    and ih: "\<And>d' p' s' t'. length d' = length p' \<Longrightarrow>
               ev d' p' mp dev b msk bl s' = Some (None, t') \<Longrightarrow>
               Print cpu_message \<notin> set t' \<Longrightarrow> written t' = p'"
    and np: "Print cpu_message \<notin> set t"
  shows "written t = p"
proof -
  let ?k = "length p div nat b * nat b"
  from tr obtain t0 where
    t0: "transfer_batches E ctx d p mp b msk bl s = (None, t0)" and
    c: "(drop ?k d = [] \<and> t = t0) \<or>
        (drop ?k d \<noteq> [] \<and>
          (\<exists>t'. ev (drop ?k d) (drop ?k p) mp dev b msk bl (apply_events t0 s) = Some (None, t') \<and>
                t = t0 @ t'))"
    by (rule transfer_success)
  from transfer_batches_trace[OF t0] have w0: "written t0 = take ?k p" by simp
  from c show ?thesis
  proof
    assume "drop ?k d = [] \<and> t = t0"
    then have "length p \<le> ?k" "t = t0" using al by simp_all
    with w0 show ?thesis by simp
  next
    assume "drop ?k d \<noteq> [] \<and>
          (\<exists>t'. ev (drop ?k d) (drop ?k p) mp dev b msk bl (apply_events t0 s) = Some (None, t') \<and>
                t = t0 @ t')"
    then obtain t' where
      e: "ev (drop ?k d) (drop ?k p) mp dev b msk bl (apply_events t0 s) = Some (None, t')" and
      t: "t = t0 @ t'" by blast
    have "length (drop ?k d) = length (drop ?k p)" using al by simp
    from ih[OF this e] np t have "written t' = drop ?k p" by simp
    with w0 t show ?thesis by (simp add: written_append)
  qed
qed

lemma eval_written_exact:
  "length d = length p \<Longrightarrow> eval fuel E d p mp dev B msk bl s = Some (None, t) \<Longrightarrow>
   Print cpu_message \<notin> set t \<Longrightarrow> written t = p"
proof (induction fuel arbitrary: d p B s t)
  case 0
  then show ?case by simp
next
  case (Suc fuel)
  let ?b = "min (int (length p)) B"
  from Suc.prems(2,3) have
    "transfer (eval fuel E) E dev d p mp dev ?b msk bl s = Some (None, t)"
    unfolding eval_Suc[of fuel E d p mp dev B msk bl s]
    by (auto split: option.splits prod.splits if_splits)
  then show ?case
    using Suc.prems(1) Suc.IH Suc.prems(3) by (rule transfer_written_exact)
qed

lemma transfer_written_all:
  assumes tr: "transfer ev E ctx d p mp dev b msk bl s = Some (None, t)"
    and al: "length d = length p"
    and ih: "\<And>d' p' s' t'. length d' = length p' \<Longrightarrow>
               ev d' p' mp dev b msk bl s' = Some (None, t') \<Longrightarrow> set p' \<subseteq> set (written t')"
  shows "set p \<subseteq> set (written t)"
proof -
  let ?k = "length p div nat b * nat b"
  from tr obtain t0 where
    t0: "transfer_batches E ctx d p mp b msk bl s = (None, t0)" and
    c: "(drop ?k d = [] \<and> t = t0) \<or>
        (drop ?k d \<noteq> [] \<and>
          (\<exists>t'. ev (drop ?k d) (drop ?k p) mp dev b msk bl (apply_events t0 s) = Some (None, t') \<and>
                t = t0 @ t'))"
    by (rule transfer_success)
  from transfer_batches_trace[OF t0] have w0: "written t0 = take ?k p" by simp
  from c show ?thesis
  proof
    assume "drop ?k d = [] \<and> t = t0"
    then have "length p \<le> ?k" "t = t0" using al by simp_all
    with w0 show ?thesis by simp
  next
    assume "drop ?k d \<noteq> [] \<and>
          (\<exists>t'. ev (drop ?k d) (drop ?k p) mp dev b msk bl (apply_events t0 s) = Some (None, t') \<and>
                t = t0 @ t')"
    then obtain t' where
      e: "ev (drop ?k d) (drop ?k p) mp dev b msk bl (apply_events t0 s) = Some (None, t')" and
      t: "t = t0 @ t'" by blast
    have "length (drop ?k d) = length (drop ?k p)" using al by simp
    from ih[OF this e] have "set (drop ?k p) \<subseteq> set (written t')" .
    moreover have "set p = set (take ?k p) \<union> set (drop ?k p)"
      by (metis append_take_drop_id set_append)
    ultimately show ?thesis using w0 t by (auto simp: written_append)
  qed
qed

lemma eval_written_all:
  "length d = length p \<Longrightarrow> eval fuel E d p mp dev B msk bl s = Some (None, t) \<Longrightarrow>
   set p \<subseteq> set (written t)"
proof (induction fuel arbitrary: d p B s t)
  case 0
  then show ?case by simp
next
  case (Suc fuel)
  let ?b = "min (int (length p)) B"
  from Suc.prems(2) consider
    (primary) "transfer (eval fuel E) E dev d p mp dev ?b msk bl s = Some (None, t)" |
    (fallback) t1 t2 where "t = t1 @ Print cpu_message # t2"
      "transfer (eval fuel E) E ''/cpu:0'' d p mp dev ?b msk bl
         (apply_events (t1 @ [Print cpu_message]) s) = Some (None, t2)"
    unfolding eval_Suc[of fuel E d p mp dev B msk bl s]
    by (auto split: option.splits prod.splits if_splits)
  then show ?case
  proof cases
    case primary
    then show ?thesis using Suc.prems(1) Suc.IH by (rule transfer_written_all)
  next
    case fallback
    from fallback(2) Suc.prems(1) Suc.IH have "set p \<subseteq> set (written t2)"
      by (rule transfer_written_all)
    with fallback(1) show ?thesis by (auto simp: written_append)
  qed
qed

text \<open>
  What the remainder handling does when the batch loop ends without an exception.  For
  input and output lists of equal length \<open>N\<close> and a batch size \<open>B\<close> with
  \<open>N mod B \<noteq> 0\<close>, the batch loop of transfer reads and writes exactly the first
  \<open>(N div B) * B\<close> images, in order, and transfer then is the call of eval on the
  \<open>N mod B\<close> images left over, with the same model, device, batch size, mask and blend,
  on the file system the batches left.  eval returns within a recursion depth of two;
  when it returns without error every output path has been written, and the paths
  written are exactly the output paths, each once and in order, unless an attempt was
  repeated on the CPU.
\<close>

lemma transfer_remainder:
  "(length d = length p \<and> length p mod nat b \<noteq> 0 \<and>
    transfer_batches E ctx d p mp b msk bl s = (None, t0) \<longrightarrow>
      written t0 = take (length p div nat b * nat b) p \<and>
      reads t0 = hd d # take (length p div nat b * nat b) d \<and>
      length (drop (length p div nat b * nat b) d) = length p mod nat b \<and>
      transfer ev E ctx d p mp dev b msk bl s =
        map_option (\<lambda>(r, t'). (r, t0 @ t'))
          (ev (drop (length p div nat b * nat b) d) (drop (length p div nat b * nat b) p)
             mp dev b msk bl (apply_events t0 s))) \<and>
   (length d = length p \<longrightarrow> (\<exists>r. eval (Suc (Suc n)) E d p mp dev B msk bl s = Some r)) \<and>
   (length d = length p \<and> eval fuel E d p mp dev B msk bl s = Some (None, t) \<longrightarrow>
      set p \<subseteq> set (written t) \<and> set p \<subseteq> dom (files (apply_events t s)) \<and>
      (Print cpu_message \<notin> set t \<longrightarrow> written t = p))"
proof (intro conjI impI)
  assume a: "length d = length p \<and> length p mod nat b \<noteq> 0 \<and>
    transfer_batches E ctx d p mp b msk bl s = (None, t0)"
  let ?k = "length p div nat b * nat b"
  from a have t0: "transfer_batches E ctx d p mp b msk bl s = (None, t0)" by simp
  from transfer_batches_trace[OF t0]
  show "written t0 = take ?k p" and "reads t0 = hd d # take ?k d" by simp_all
  show len: "length (drop ?k d) = length p mod nat b"
    using a by (simp add: minus_div_mult_eq_mod)
  with a have "drop ?k d \<noteq> []" by auto
  then show "transfer ev E ctx d p mp dev b msk bl s =
        map_option (\<lambda>(r, t'). (r, t0 @ t'))
          (ev (drop ?k d) (drop ?k p) mp dev b msk bl (apply_events t0 s))"
    using t0 by (simp add: transfer_def Let_def split: option.splits)
next
  assume "length d = length p"
  then show "\<exists>r. eval (Suc (Suc n)) E d p mp dev B msk bl s = Some r"
    using eval_depth_two[of d p n E mp dev B msk bl s] by auto
next
  assume a: "length d = length p \<and> eval fuel E d p mp dev B msk bl s = Some (None, t)"
  then show w: "set p \<subseteq> set (written t)" using eval_written_all by blast
  have "set (written t) \<subseteq> dom (files (apply_events t s))"
    by (simp add: files_apply_events dom_last_writes)
  with w show "set p \<subseteq> dom (files (apply_events t s))" by (rule subset_trans)
  assume "Print cpu_message \<notin> set t"
  with a show "written t = p" using eval_written_exact by blast
qed

lemma transfer_remainder_example:
  "transfer_batches demo_env ''/gpu:0'' [''a'', ''b'', ''c''] [''oa'', ''ob'', ''oc''] ''m'' 2 0 0
     demo_fs =
     (None, [Read ''a'', Restore ''/gpu:0'' ''m'', Read ''a'', Run ''/gpu:0'', Read ''b'',
             Run ''/gpu:0'', Write ''oa'' [200, 200, 200, 200, 200, 200],
             Write ''ob'' [200, 200, 200, 225, 225, 225]]) \<and>
   transfer (eval 1 demo_env) demo_env ''/gpu:0'' [''a'', ''b'', ''c''] [''oa'', ''ob'', ''oc'']
     ''m'' ''/gpu:0'' 2 0 0 demo_fs =
     Some (None, [Read ''a'', Restore ''/gpu:0'' ''m'', Read ''a'', Run ''/gpu:0'', Read ''b'',
             Run ''/gpu:0'', Write ''oa'' [200, 200, 200, 200, 200, 200],
             Write ''ob'' [200, 200, 200, 225, 225, 225],
             Read ''c'', Restore ''/gpu:0'' ''m'', Read ''c'', Run ''/gpu:0'',
             Write ''oc'' [200, 200, 200, 200, 200, 200]])"
proof -
  let ?t0 = "[Read ''a'', Restore ''/gpu:0'' ''m'', Read ''a'', Run ''/gpu:0'', Read ''b'',
             Run ''/gpu:0'', Write ''oa'' [200, 200, 200, 200, 200, 200],
             Write ''ob'' [200, 200, 200, 225, 225, 225]]"
  have h: "transfer_batches demo_env ''/gpu:0'' [''a'', ''b'', ''c''] [''oa'', ''ob'', ''oc''] ''m''
      2 0 0 demo_fs = (None, ?t0)"
    by code_simp
  have e: "eval 1 demo_env [''c''] [''oc''] ''m'' ''/gpu:0'' 2 0 0 (apply_events ?t0 demo_fs) =
      Some (None, [Read ''c'', Restore ''/gpu:0'' ''m'', Read ''c'', Run ''/gpu:0'',
             Write ''oc'' [200, 200, 200, 200, 200, 200]])"
    by code_simp
  from transfer_remainder[of "[''a'', ''b'', ''c'']" "[''oa'', ''ob'', ''oc'']" 2 demo_env
      "''/gpu:0''" "''m''" 0 0 demo_fs ?t0 "eval 1 demo_env" "''/gpu:0''" 0 2 0 "[]"] h
  have "transfer (eval 1 demo_env) demo_env ''/gpu:0'' [''a'', ''b'', ''c'']
          [''oa'', ''ob'', ''oc''] ''m'' ''/gpu:0'' 2 0 0 demo_fs =
        map_option (\<lambda>(r, t'). (r, ?t0 @ t'))
          (eval 1 demo_env [''c''] [''oc''] ''m'' ''/gpu:0'' 2 0 0 (apply_events ?t0 demo_fs))"
    by simp
  with h e show ?thesis by simp
qed

text \<open>
  Claim C1 says that for \<open>N\<close> inputs and a batch size \<open>B\<close> with \<open>N mod B \<noteq> 0\<close> the
  full batches are processed, the leftover is handed to eval, and all \<open>N\<close> outputs are
  produced.  With seven images of one shape and batch size 2 there are three full
  batches and a buffer of two rows: with mask 1, and likewise with blend 1/2, the third
  batch reads \<open>x[2]\<close> and raises IndexError, only the first four outputs are written and
  the leftover image never reaches eval.  With mask 0 and blend 0 the same call writes
  all seven.
\<close>

theorem remainder_lost_after_index_error:
  "map_option (\<lambda>(e, t). (e, written t))
     (eval 2 demo_env [''i1'', ''i2'', ''i3'', ''i4'', ''i5'', ''i6'', ''i7'']
        [''o1'', ''o2'', ''o3'', ''o4'', ''o5'', ''o6'', ''o7''] ''m'' ''/gpu:0'' 2 1 0
        demo_seven_fs) =
     Some (Some IndexError, [''o1'', ''o2'', ''o3'', ''o4'']) \<and>
   map_option (\<lambda>(e, t). (e, written t))
     (eval 2 demo_env [''i1'', ''i2'', ''i3'', ''i4'', ''i5'', ''i6'', ''i7'']
        [''o1'', ''o2'', ''o3'', ''o4'', ''o5'', ''o6'', ''o7''] ''m'' ''/gpu:0'' 2 0 (1 / 2)
        demo_seven_fs) =
     Some (Some IndexError, [''o1'', ''o2'', ''o3'', ''o4'']) \<and>
   map_option (\<lambda>(e, t). (e, written t))
     (eval 2 demo_env [''i1'', ''i2'', ''i3'', ''i4'', ''i5'', ''i6'', ''i7'']
        [''o1'', ''o2'', ''o3'', ''o4'', ''o5'', ''o6'', ''o7''] ''m'' ''/gpu:0'' 2 0 0
        demo_seven_fs) =
     Some (None, [''o1'', ''o2'', ''o3'', ''o4'', ''o5'', ''o6'', ''o7''])"
  by code_simp

section \<open>Validation of the options\<close>

text \<open>
  Claim C9.  get\_opts raises when the batch size is not positive, the mask is neither 0
  nor 1, the blend exceeds 1 or the input path does not exist; up to there nothing has
  been read, restored, run or written, and main ends with that error.  Options that
  pass these checks are returned unchanged (provided the output directory, when it has to
  be created, can be).
\<close>

lemma get_opts_trace: "get_opts E s opts = (r, t) \<Longrightarrow> no_compute t"
  by (auto simp: get_opts_def split: if_splits option.splits prod.splits)

theorem get_opts_fails_fast:
  "((batch_size opts \<le> 0 \<or> mask_flag opts \<notin> {0, 1} \<or> blend opts > 1 \<or>
     \<not> path_exists s (in_path opts)) \<longrightarrow>
      (\<exists>e t. get_opts E s opts = (Inl e, t) \<and> no_compute t \<and>
             main fuel E opts s = Some (Some e, t))) \<and>
   (0 < batch_size opts \<and> mask_flag opts \<in> {0, 1} \<and> blend opts \<le> 1 \<and>
    path_exists s (in_path opts) \<and>
    (CHR ''.'' \<in> set (out_path opts) \<or> path_exists s (out_path opts) \<or>
     makedirs E (out_path opts) = None) \<longrightarrow>
      (\<exists>t. get_opts E s opts = (Inr opts, t) \<and> no_compute t))"
proof (intro conjI impI)
  assume bad: "batch_size opts \<le> 0 \<or> mask_flag opts \<notin> {0, 1} \<or> blend opts > 1 \<or>
     \<not> path_exists s (in_path opts)"
  obtain r t where g: "get_opts E s opts = (r, t)" by (cases "get_opts E s opts")
  with bad obtain e where "r = Inl e"
    by (auto simp: get_opts_def split: if_splits option.splits prod.splits)
  with g get_opts_trace[OF g]
  show "\<exists>e t. get_opts E s opts = (Inl e, t) \<and> no_compute t \<and>
             main fuel E opts s = Some (Some e, t)"
    by (simp add: main_def)
next
  assume ok: "0 < batch_size opts \<and> mask_flag opts \<in> {0, 1} \<and> blend opts \<le> 1 \<and>
    path_exists s (in_path opts) \<and>
    (CHR ''.'' \<in> set (out_path opts) \<or> path_exists s (out_path opts) \<or>
     makedirs E (out_path opts) = None)"
  obtain r t where g: "get_opts E s opts = (r, t)" by (cases "get_opts E s opts")
  with ok have "r = Inr opts"
    by (auto simp: get_opts_def split: if_splits option.splits prod.splits)
  with g get_opts_trace[OF g]
  show "\<exists>t. get_opts E s opts = (Inr opts, t) \<and> no_compute t" by simp
qed

theorem get_opts_fails_fast_witness:
  "main 2 demo_env (demo_opts\<lparr>batch_size := 0\<rparr>) demo_fs = Some (Some AssertionError, []) \<and>
   main 2 demo_env (demo_opts\<lparr>mask_flag := 2\<rparr>) demo_fs = Some (Some AssertionError, []) \<and>
   get_opts demo_env demo_fs demo_opts = (Inr demo_opts, [])"
proof -
  have g: "get_opts demo_env demo_fs (demo_opts\<lparr>batch_size := 0\<rparr>) = (Inl AssertionError, [])"
    "get_opts demo_env demo_fs (demo_opts\<lparr>mask_flag := 2\<rparr>) = (Inl AssertionError, [])"
    by (simp_all add: get_opts_def demo_opts_def demo_fs_def path_exists_def)
  have "main 2 demo_env (demo_opts\<lparr>batch_size := 0\<rparr>) demo_fs = Some (Some AssertionError, [])"
    using get_opts_fails_fast[of "demo_opts\<lparr>batch_size := 0\<rparr>" demo_fs demo_env 2] g(1)
    by (auto simp: demo_opts_def)
  moreover
  have "main 2 demo_env (demo_opts\<lparr>mask_flag := 2\<rparr>) demo_fs = Some (Some AssertionError, [])"
    using get_opts_fails_fast[of "demo_opts\<lparr>mask_flag := 2\<rparr>" demo_fs demo_env 2] g(2)
    by (auto simp: demo_opts_def)
  moreover
  have "get_opts demo_env demo_fs demo_opts = (Inr demo_opts, [])"
    using get_opts_fails_fast[of demo_opts demo_fs demo_env 2]
    by (auto simp: demo_opts_def demo_fs_def path_exists_def get_opts_def)
  ultimately show ?thesis by blast
qed

section \<open>Grouping by shape\<close>

declare dec.simps [simp del]

lemma digit_inj: "a < 10 \<Longrightarrow> b < 10 \<Longrightarrow> digit a = digit b \<Longrightarrow> a = b"
proof -
  assume a: "a < 10" "b < 10" "digit a = digit b"
  have "distinct ''0123456789''" by simp
  moreover have "a < length ''0123456789''" "b < length ''0123456789''" using a by simp_all
  ultimately show ?thesis using a(3) unfolding digit_def
    by (simp only: nth_eq_iff_index_eq)
qed

lemma digit_in: "d < 10 \<Longrightarrow> digit d \<in> set ''0123456789''"
  unfolding digit_def by (rule nth_mem) simp

lemma digit_not_x: "d < 10 \<Longrightarrow> digit d \<noteq> CHR ''x''"
  using digit_in[of d] by auto

lemma dec_nonempty: "dec n \<noteq> []"
  by (subst dec.simps) simp

lemma dec_no_x: "CHR ''x'' \<notin> set (dec n)"
proof (induction n rule: dec.induct)
  case (1 n)
  show ?case
  proof (cases "n < 10")
    case True
    then show ?thesis using digit_not_x[of n] by (subst dec.simps) auto
  next
    case False
    have "n mod 10 < 10" by simp
    then have "digit (n mod 10) \<noteq> CHR ''x''" by (rule digit_not_x)
    with False 1 show ?thesis by (subst dec.simps) auto
  qed
qed

lemma dec_inj: "dec n = dec m \<Longrightarrow> n = m"
proof (induction n arbitrary: m rule: dec.induct)
  case (1 n)
  show ?case
  proof (cases "n < 10")
    case n: True
    show ?thesis
    proof (cases "m < 10")
      case True
      with n 1(2) show ?thesis
        by (subst (asm) dec.simps, subst (asm) (2) dec.simps) (auto dest: digit_inj)
    next
      case False
      have "dec m = dec (m div 10) @ [digit (m mod 10)]"
        using False by (subst dec.simps) simp
      moreover have "dec n = [digit n]" using n by (subst dec.simps) simp
      ultimately show ?thesis using 1(2) dec_nonempty[of "m div 10"] by auto
    qed
  next
    case n: False
    have dn: "dec n = dec (n div 10) @ [digit (n mod 10)]"
      using n by (subst dec.simps) simp
    show ?thesis
    proof (cases "m < 10")
      case True
      then have "dec m = [digit m]" by (subst dec.simps) simp
      with dn 1(2) dec_nonempty[of "n div 10"] show ?thesis by auto
    next
      case False
      then have "dec m = dec (m div 10) @ [digit (m mod 10)]" by (subst dec.simps) simp
      with dn 1(2) have e: "dec (n div 10) = dec (m div 10)"
        "digit (n mod 10) = digit (m mod 10)" by simp_all
      from 1(1)[OF n e(1)] have "n div 10 = m div 10" .
      moreover have "n mod 10 = m mod 10" using e(2) by (intro digit_inj) simp_all
      ultimately show ?thesis by (metis div_mult_mod_eq)
    qed
  qed
qed

lemma split_at_sep:
  "x \<notin> set xs \<Longrightarrow> x \<notin> set xs' \<Longrightarrow> xs @ x # ys = xs' @ x # ys' \<Longrightarrow>
   xs = xs' \<and> ys = ys'"
proof (induction xs arbitrary: xs')
  case Nil
  then show ?case by (cases xs') auto
next
  case (Cons a xs)
  then show ?case by (cases xs') auto
qed

lemma fmt_shape_inj: "fmt_shape a = fmt_shape b \<Longrightarrow> a = b"
proof -
  assume e: "fmt_shape a = fmt_shape b"
  obtain h w c where a: "a = (h, w, c)" by (cases a)
  obtain h' w' c' where b: "b = (h', w', c')" by (cases b)
  from e a b have 1: "dec h @ CHR ''x'' # (dec w @ CHR ''x'' # dec c) =
      dec h' @ CHR ''x'' # (dec w' @ CHR ''x'' # dec c')"
    by (simp add: fmt_shape_def)
  from split_at_sep[OF dec_no_x dec_no_x 1]
  have 2: "dec h = dec h'" "dec w @ CHR ''x'' # dec c = dec w' @ CHR ''x'' # dec c'"
    by simp_all
  from split_at_sep[OF dec_no_x dec_no_x 2(2)] have "dec w = dec w'" "dec c = dec c'"
    by simp_all
  with 2(1) a b show ?thesis by (simp add: dec_inj)
qed

lemma dd_get_append:
  "dd_get (dd_append d k' v) k = dd_get d k @ (if k' = k then [v] else [])"
proof (cases "k' \<in> fst ` set d")
  case True
  have "map_of (map (\<lambda>(ka, vs). if ka = k' then (ka, vs @ [v]) else (ka, vs)) d) k =
        map_option (\<lambda>vs. if k = k' then vs @ [v] else vs) (map_of d k)"
    by (induction d) auto
  moreover from True have "k' = k \<Longrightarrow> map_of d k \<noteq> None"
    by (metis map_of_eq_None_iff)
  ultimately show ?thesis using True
    by (auto simp: dd_get_def dd_append_def split: option.splits)
next
  case False
  then have "k' = k \<Longrightarrow> map_of d k = None"
    by (simp add: map_of_eq_None_iff)
  with False show ?thesis
    by (auto simp: dd_get_def dd_append_def map_add_def split: option.splits)
qed

lemma dd_keys_append:
  "map fst (dd_append d k v) = (if k \<in> set (map fst d) then map fst d else map fst d @ [k])"
proof -
  have "map fst (map (\<lambda>(ka, vs). if ka = k then (ka, vs @ [v]) else (ka, vs)) d) = map fst d"
    by (induction d) auto
  then show ?thesis by (auto simp: dd_append_def)
qed

lemma dd_mset_map:
  "distinct (map fst d) \<Longrightarrow>
   mset (concat (map snd (map (\<lambda>(ka, vs). if ka = k then (ka, vs @ [v]) else (ka, vs)) d))) =
   mset (concat (map snd d)) + (if k \<in> fst ` set d then {#v#} else {#})"
  by (induction d) (auto simp: rev_image_eqI)

lemma dd_mset_append:
  "distinct (map fst d) \<Longrightarrow>
   mset (concat (map snd (dd_append d k v))) = mset (concat (map snd d)) + {#v#}"
  using dd_mset_map[of d k v] by (auto simp: dd_append_def)

lemma dd_distinct_append:
  "distinct (map fst d) \<Longrightarrow> distinct (map fst (dd_append d k v))"
  by (simp add: dd_keys_append)

lemma shape_key_read: "imread E s a = Inr img \<Longrightarrow> shape_key E s a = fmt_shape (shape img)"
  by (simp add: shape_key_def)

lemma dd_keys_set: "set (map fst (dd_append d k v)) = insert k (set (map fst d))"
  by (auto simp: dd_keys_append)

lemma dd_get_empty: "dd_get [] k = []"
  by (simp add: dd_get_def)

lemma group_shapes_step:
  assumes "group_shapes E s inp outp i (Suc n) (din0, dout0) = (Inr (din, dout), t)"
  shows "\<exists>img t'. i < length inp \<and> i < length outp \<and> imread E s (inp ! i) = Inr img \<and>
    group_shapes E s inp outp (Suc i) n
            (dd_append din0 (fmt_shape (shape img)) (inp ! i),
             dd_append dout0 (fmt_shape (shape img)) (outp ! i)) = (Inr (din, dout), t')"
  using assms
  by (simp add: get_item_def split: if_splits sum.splits prod.splits)

lemma group_shapes_result:
  assumes "group_shapes E s inp outp i n (din0, dout0) = (Inr (din, dout), t)"
    and "map fst din0 = map fst dout0" and "distinct (map fst din0)"
  shows "map fst din = map fst dout \<and> distinct (map fst din) \<and>
     set (map fst din) = set (map fst din0) \<union> shape_key E s ` set (take n (drop i inp)) \<and>
     (\<forall>k. dd_get din k = dd_get din0 k @
            map fst (filter (\<lambda>(a, b). shape_key E s a = k)
                       (zip (take n (drop i inp)) (take n (drop i outp))))) \<and>
     (\<forall>k. dd_get dout k = dd_get dout0 k @
            map snd (filter (\<lambda>(a, b). shape_key E s a = k)
                       (zip (take n (drop i inp)) (take n (drop i outp))))) \<and>
     mset (concat (map snd din)) = mset (concat (map snd din0)) + mset (take n (drop i inp))"
  using assms
proof (induction n arbitrary: i din0 dout0 t)
  case 0
  from "0.prems"(1) have "din = din0" "dout = dout0" by simp_all
  with "0.prems"(2,3) show ?case by simp
next
  case (Suc n)
  from group_shapes_step[OF Suc.prems(1)] obtain img t' where
    i: "i < length inp" "i < length outp" and
    rd: "imread E s (inp ! i) = Inr img" and
    rec: "group_shapes E s inp outp (Suc i) n
            (dd_append din0 (fmt_shape (shape img)) (inp ! i),
             dd_append dout0 (fmt_shape (shape img)) (outp ! i)) = (Inr (din, dout), t')"
    by blast
  let ?k = "fmt_shape (shape img)"
  let ?rin = "take n (drop (Suc i) inp)"
  let ?rout = "take n (drop (Suc i) outp)"
  have key: "shape_key E s (inp ! i) = ?k" using rd by (rule shape_key_read)
  have k1: "map fst (dd_append din0 ?k (inp ! i)) = map fst (dd_append dout0 ?k (outp ! i))"
    using Suc.prems(2) by (simp add: dd_keys_append)
  have k2: "distinct (map fst (dd_append din0 ?k (inp ! i)))"
    using Suc.prems(3) by (rule dd_distinct_append)
  note IH = Suc.IH[OF rec k1 k2]
  note IH1 = IH[THEN conjunct1]
  note IH2 = IH[THEN conjunct2, THEN conjunct1]
  note IH3 = IH[THEN conjunct2, THEN conjunct2, THEN conjunct1]
  note IH4 = IH[THEN conjunct2, THEN conjunct2, THEN conjunct2, THEN conjunct1, THEN spec]
  note IH5 = IH[THEN conjunct2, THEN conjunct2, THEN conjunct2, THEN conjunct2, THEN conjunct1,
      THEN spec]
  note IH6 = IH[THEN conjunct2, THEN conjunct2, THEN conjunct2, THEN conjunct2, THEN conjunct2]
  have "drop i inp = inp ! i # drop (Suc i) inp"
    using i(1) by (rule Cons_nth_drop_Suc[symmetric])
  then have ti: "take (Suc n) (drop i inp) = inp ! i # ?rin" by simp
  have "drop i outp = outp ! i # drop (Suc i) outp"
    using i(2) by (rule Cons_nth_drop_Suc[symmetric])
  then have to: "take (Suc n) (drop i outp) = outp ! i # ?rout" by simp
  have c3: "set (map fst din) =
        set (map fst din0) \<union> shape_key E s ` set (take (Suc n) (drop i inp))"
    unfolding IH3 ti dd_keys_set using key by simp
  have c4: "dd_get din k = dd_get din0 k @
            map fst (filter (\<lambda>(a, b). shape_key E s a = k)
                       (zip (take (Suc n) (drop i inp)) (take (Suc n) (drop i outp))))" for k
    unfolding IH4 ti to dd_get_append using key by simp
  have c5: "dd_get dout k = dd_get dout0 k @
            map snd (filter (\<lambda>(a, b). shape_key E s a = k)
                       (zip (take (Suc n) (drop i inp)) (take (Suc n) (drop i outp))))" for k
    unfolding IH5 ti to dd_get_append using key by simp
  have c6: "mset (concat (map snd din)) =
        mset (concat (map snd din0)) + mset (take (Suc n) (drop i inp))"
    unfolding IH6 ti dd_mset_append[OF Suc.prems(3)] by simp
  show ?case
  proof (intro conjI allI)
    show "map fst din = map fst dout" by (rule IH1)
    show "distinct (map fst din)" by (rule IH2)
    show "set (map fst din) =
        set (map fst din0) \<union> shape_key E s ` set (take (Suc n) (drop i inp))" by (rule c3)
    show "dd_get din k = dd_get din0 k @
            map fst (filter (\<lambda>(a, b). shape_key E s a = k)
                       (zip (take (Suc n) (drop i inp)) (take (Suc n) (drop i outp))))" for k
      by (rule c4)
    show "dd_get dout k = dd_get dout0 k @
            map snd (filter (\<lambda>(a, b). shape_key E s a = k)
                       (zip (take (Suc n) (drop i inp)) (take (Suc n) (drop i outp))))" for k
      by (rule c5)
    show "mset (concat (map snd din)) =
        mset (concat (map snd din0)) + mset (take (Suc n) (drop i inp))" by (rule c6)
  qed
qed

text \<open>
  Claim C7.  For input and output lists of equal length on which the first loop of
  eval\_mul\_dims succeeds, the two dictionaries have the same keys, each once; the keys
  are the formatted shapes of the inputs, and two inputs have the same key exactly when
  their images have the same shape; under every key the input group and the output group
  are the inputs with that key and their outputs, in the original order and position by
  position; and the groups together hold every input exactly as often as the list does.
\<close>

theorem shape_groups_partition:
  assumes "length in_paths = length out_paths"
    and "group_shapes E s in_paths out_paths 0 (length in_paths) ([], []) = (Inr (din, dout), t)"
  shows "map fst din = map fst dout \<and> distinct (map fst din) \<and>
     set (map fst din) = shape_key E s ` set in_paths \<and>
     (\<forall>k. zip (dd_get din k) (dd_get dout k) =
            filter (\<lambda>(a, b). shape_key E s a = k) (zip in_paths out_paths) \<and>
          length (dd_get din k) = length (dd_get dout k)) \<and>
     mset (concat (map snd din)) = mset in_paths \<and>
     (\<forall>a img a' img'. imread E s a = Inr img \<and> imread E s a' = Inr img' \<longrightarrow>
        (shape_key E s a = shape_key E s a') = (shape img = shape img'))"
proof -
  let ?P = "\<lambda>k. (\<lambda>(a, b). shape_key E s a = k)"
  have e: "map fst ([]::dict) = map fst ([]::dict)" "distinct (map fst ([]::dict))" by simp_all
  have tk: "take (length in_paths) (drop 0 in_paths) = in_paths"
    "take (length in_paths) (drop 0 out_paths) = out_paths"
    using assms(1) by simp_all
  note R = group_shapes_result[OF assms(2) e, unfolded tk dd_get_empty]
  note r1 = R[THEN conjunct1]
  note r2 = R[THEN conjunct2, THEN conjunct1]
  have r3: "set (map fst din) = shape_key E s ` set in_paths"
    using R[THEN conjunct2, THEN conjunct2, THEN conjunct1] by simp
  have r4: "dd_get din k = map fst (filter (?P k) (zip in_paths out_paths))" for k
    using R[THEN conjunct2, THEN conjunct2, THEN conjunct2, THEN conjunct1, THEN spec, of k]
    by simp
  have r5: "dd_get dout k = map snd (filter (?P k) (zip in_paths out_paths))" for k
    using R[THEN conjunct2, THEN conjunct2, THEN conjunct2, THEN conjunct2, THEN conjunct1,
        THEN spec, of k]
    by simp
  have r6: "mset (concat (map snd din)) = mset in_paths"
    using R[THEN conjunct2, THEN conjunct2, THEN conjunct2, THEN conjunct2, THEN conjunct2]
    by simp
  have z: "zip (dd_get din k) (dd_get dout k) = filter (?P k) (zip in_paths out_paths)" for k
    unfolding r4 r5 by (rule zip_map_fst_snd)
  have l: "length (dd_get din k) = length (dd_get dout k)" for k
    unfolding r4 r5 by simp
  have x: "(shape_key E s a = shape_key E s a') = (shape img = shape img')"
    if "imread E s a = Inr img \<and> imread E s a' = Inr img'" for a img a' img'
    using that fmt_shape_inj[of "shape img" "shape img'"] by (auto simp: shape_key_def)
  show ?thesis
  proof (intro conjI allI impI)
    show "map fst din = map fst dout" by (rule r1)
    show "distinct (map fst din)" by (rule r2)
    show "set (map fst din) = shape_key E s ` set in_paths" by (rule r3)
    show "zip (dd_get din k) (dd_get dout k) =
            filter (\<lambda>(a, b). shape_key E s a = k) (zip in_paths out_paths)" for k
      by (rule z)
    show "length (dd_get din k) = length (dd_get dout k)" for k by (rule l)
    show "mset (concat (map snd din)) = mset in_paths" by (rule r6)
    show "(shape_key E s a = shape_key E s a') = (shape img = shape img')"
      if "imread E s a = Inr img \<and> imread E s a' = Inr img'" for a img a' img'
      using that by (rule x)
  qed
qed


lemma dec_small: "dec (Suc 0) = ''1''" "dec (Suc (Suc 0)) = ''2''" "dec 3 = ''3''"
  by (subst dec.simps, simp add: digit_def)+

theorem shape_groups_partition_witness:
  "length [''a'', ''d'', ''b''] = length [''oa'', ''od'', ''ob''] \<and>
   group_shapes demo_env demo_fs [''a'', ''d'', ''b''] [''oa'', ''od'', ''ob''] 0
     (length [''a'', ''d'', ''b'']) ([], []) =
     (Inr ([(''1x2x3'', [''a'', ''b'']), (''1x1x3'', [''d''])],
           [(''1x2x3'', [''oa'', ''ob'']), (''1x1x3'', [''od''])]),
      [Read ''a'', Read ''d'', Read ''b'']) \<and>
   mset (concat (map snd [(''1x2x3'', [''a'', ''b'']), (''1x1x3'', [''d''])])) =
     mset [''a'', ''d'', ''b'']"
proof -
  have g: "group_shapes demo_env demo_fs [''a'', ''d'', ''b''] [''oa'', ''od'', ''ob''] 0
     (length [''a'', ''d'', ''b'']) ([], []) =
     (Inr ([(''1x2x3'', [''a'', ''b'']), (''1x1x3'', [''d''])],
           [(''1x2x3'', [''oa'', ''ob'']), (''1x1x3'', [''od''])]),
      [Read ''a'', Read ''d'', Read ''b''])"
    by (simp add: get_item_def imread_def demo_env_def demo_fs_def demo_decode_def
        fmt_shape_def dd_append_def dec_small digit_def)
  have l: "length [''a'', ''d'', ''b''] = length [''oa'', ''od'', ''ob'']" by simp
  from shape_groups_partition[OF l g] l g show ?thesis by blast
qed

section \<open>Running twice\<close>

lemma files_unwritten:
  "q \<notin> set (written t) \<Longrightarrow> files (apply_events t s) q = files s q"
proof -
  assume "q \<notin> set (written t)"
  then have "last_writes t q = None" using dom_last_writes[of t] by auto
  then show ?thesis by (simp add: files_apply_events map_add_def)
qed

lemma files_apply_twice:
  "files (apply_events t (apply_events t s)) = files (apply_events t s)"
  by (simp add: files_apply_events map_add_def fun_eq_iff split: option.splits)

lemma files_apply_agree:
  "files s q = files s' q \<Longrightarrow> files (apply_events t s) q = files (apply_events t s') q"
  by (simp add: files_apply_events map_add_def split: option.splits)

lemma imread_agree: "files s q = files s' q \<Longrightarrow> imread E s q = imread E s' q"
  by (simp add: imread_def)

lemma read_img_agree: "files s q = files s' q \<Longrightarrow> read_img E s q = read_img E s' q"
  by (simp add: read_img_def imread_agree[of s q s'])

lemma fill_batch_agree:
  "\<forall>q\<in>set ps. files s q = files s' q \<Longrightarrow>
   fill_batch E ctx mp s j ps x preds = fill_batch E ctx mp s' j ps x preds"
proof (induction ps arbitrary: j x preds)
  case Nil
  then show ?case by simp
next
  case (Cons a ps)
  have r: "read_img E s a = read_img E s' a" using Cons.prems by (intro read_img_agree) simp
  have "fill_batch E ctx mp s j' ps x' preds' = fill_batch E ctx mp s' j' ps x' preds'"
    for j' x' preds'
    using Cons.prems by (intro Cons.IH) simp
  then show ?case by (simp add: r split: sum.splits prod.splits)
qed

lemma run_batches_agree:
  "\<forall>q\<in>set d. files s q = files s' q \<Longrightarrow>
   run_batches E ctx mp d p sh b msk bl i n preds s =
   run_batches E ctx mp d p sh b msk bl i n preds s'"
proof (induction n arbitrary: i preds s s')
  case 0
  then show ?case by simp
next
  case (Suc n)
  have f: "fill_batch E ctx mp s 0 (take b (drop (i * b) d)) (replicate b (zeros sh)) preds =
           fill_batch E ctx mp s' 0 (take b (drop (i * b) d)) (replicate b (zeros sh)) preds"
  proof (rule fill_batch_agree, rule ballI)
    fix q
    assume "q \<in> set (take b (drop (i * b) d))"
    then have "q \<in> set d" by (meson in_set_takeD in_set_dropD)
    with Suc.prems show "files s q = files s' q" by (rule bspec)
  qed
  have r: "run_batches E ctx mp d p sh b msk bl (Suc i) n preds' (apply_events u s) =
           run_batches E ctx mp d p sh b msk bl (Suc i) n preds' (apply_events u s')"
    for preds' u
  proof (rule Suc.IH, rule ballI)
    fix q
    assume "q \<in> set d"
    with Suc.prems have "files s q = files s' q" by (rule bspec)
    then show "files (apply_events u s) q = files (apply_events u s') q"
      by (rule files_apply_agree)
  qed
  show ?case
    by (simp add: Let_def f r split: sum.splits prod.splits option.splits)
qed

lemma transfer_batches_agree:
  assumes "\<forall>q\<in>set d. files s q = files s' q"
  shows "transfer_batches E ctx d p mp b msk bl s = transfer_batches E ctx d p mp b msk bl s'"
proof (cases d)
  case Nil
  then show ?thesis by (simp add: transfer_batches_def)
next
  case (Cons a ds)
  have r: "read_img E s a = read_img E s' a" using assms Cons by (intro read_img_agree) simp
  have rb: "run_batches E ctx mp d p sh n msk bl 0 k None s =
            run_batches E ctx mp d p sh n msk bl 0 k None s'" for sh n k
    using assms by (rule run_batches_agree)
  note rb' = rb[unfolded Cons]
  show ?thesis
    by (simp add: transfer_batches_def Cons r rb' split: sum.splits option.splits prod.splits)
qed

lemma transfer_agree:
  assumes a: "\<forall>q\<in>set d. files s q = files s' q"
    and ev: "\<And>d' p' s1 s2. set d' \<subseteq> set d \<Longrightarrow> \<forall>q\<in>set d'. files s1 q = files s2 q \<Longrightarrow>
               ev d' p' mp dev b msk bl s1 = ev d' p' mp dev b msk bl s2"
  shows "transfer ev E ctx d p mp dev b msk bl s = transfer ev E ctx d p mp dev b msk bl s'"
proof -
  let ?k = "length p div nat b * nat b"
  have tb: "transfer_batches E ctx d p mp b msk bl s = transfer_batches E ctx d p mp b msk bl s'"
    using a by (rule transfer_batches_agree)
  have H: "ev (drop ?k d) (drop ?k p) mp dev b msk bl (apply_events t s) =
        ev (drop ?k d) (drop ?k p) mp dev b msk bl (apply_events t s')" for t
  proof (rule ev)
    show "set (drop ?k d) \<subseteq> set d" by (rule set_drop_subset)
    show "\<forall>q\<in>set (drop ?k d). files (apply_events t s) q = files (apply_events t s') q"
    proof
      fix q
      assume "q \<in> set (drop ?k d)"
      then have "q \<in> set d" by (rule in_set_dropD)
      with a have "files s q = files s' q" by (rule bspec)
      then show "files (apply_events t s) q = files (apply_events t s') q"
        by (rule files_apply_agree)
    qed
  qed
  show ?thesis
    by (simp add: transfer_def tb Let_def H split: prod.splits option.splits)
qed

lemma eval_agree:
  "\<forall>q\<in>set d. files s q = files s' q \<Longrightarrow>
   eval fuel E d p mp dev B msk bl s = eval fuel E d p mp dev B msk bl s'"
proof (induction fuel arbitrary: d p B s s')
  case 0
  then show ?case by simp
next
  case (Suc fuel)
  let ?b = "min (int (length p)) B"
  have t: "transfer (eval fuel E) E ctx d p mp dev ?b msk bl u =
           transfer (eval fuel E) E ctx d p mp dev ?b msk bl u'"
    if "\<forall>q\<in>set d. files u q = files u' q" for ctx u u'
    using that by (rule transfer_agree) (rule Suc.IH)
  have t1: "transfer (eval fuel E) E dev d p mp dev ?b msk bl s =
            transfer (eval fuel E) E dev d p mp dev ?b msk bl s'"
    using Suc.prems by (rule t)
  have t2: "transfer (eval fuel E) E ''/cpu:0'' d p mp dev ?b msk bl (apply_events u s) =
            transfer (eval fuel E) E ''/cpu:0'' d p mp dev ?b msk bl (apply_events u s')" for u
  proof (rule t, rule ballI)
    fix q
    assume "q \<in> set d"
    with Suc.prems have "files s q = files s' q" by (rule bspec)
    then show "files (apply_events u s) q = files (apply_events u s') q"
      by (rule files_apply_agree)
  qed
  show ?case
    unfolding eval_Suc[of fuel E d p mp dev B msk bl s] eval_Suc[of fuel E d p mp dev B msk bl s']
      t1
    by (simp add: t2 split: option.splits prod.splits)
qed


lemma run_batches_written_subset:
  "run_batches E ctx mp d p sh b msk bl i n preds s = (r, t) \<Longrightarrow> set (written t) \<subseteq> set p"
proof (induction n arbitrary: i preds s r t)
  case 0
  then show ?case by simp
next
  case (Suc n)
  obtain fr t1 where f: "fill_batch E ctx mp s 0 (take b (drop (i * b) d))
      (replicate b (zeros sh)) preds = (fr, t1)"
    by (cases "fill_batch E ctx mp s 0 (take b (drop (i * b) d)) (replicate b (zeros sh)) preds")
  have w1: "written t1 = []" using f by (rule fill_batch_written)
  show ?case
  proof (cases fr)
    case (Inl e)
    with Suc.prems f w1 show ?thesis by (simp add: Let_def)
  next
    case (Inr xp)
    obtain x' preds' where xp: "xp = (x', preds')" by (cases xp)
    obtain sr t2 where sv: "save_batch E x' preds' msk bl i 0 (take b (drop (i * b) p)) = (sr, t2)"
      by (cases "save_batch E x' preds' msk bl i 0 (take b (drop (i * b) p))")
    have "set (written t2) \<subseteq> set (take b (drop (i * b) p))"
      using sv by (rule save_batch_written_subset)
    also have "\<dots> \<subseteq> set p" by (meson set_take_subset set_drop_subset subset_trans)
    finally have w2: "set (written t2) \<subseteq> set p" .
    show ?thesis
    proof (cases sr)
      case (Some e)
      with Suc.prems f Inr xp sv w1 w2 show ?thesis by (auto simp: Let_def written_append)
    next
      case None
      obtain rr t3 where rec: "run_batches E ctx mp d p sh b msk bl (Suc i) n preds'
          (apply_events (t1 @ t2) s) = (rr, t3)"
        by (cases "run_batches E ctx mp d p sh b msk bl (Suc i) n preds'
          (apply_events (t1 @ t2) s)")
      from Suc.IH[OF rec] have w3: "set (written t3) \<subseteq> set p" .
      from Suc.prems f Inr xp sv None rec have "t = t1 @ t2 @ t3" by (simp add: Let_def)
      with w1 w2 w3 show ?thesis by (simp add: written_append)
    qed
  qed
qed

lemma transfer_batches_written_subset:
  "transfer_batches E ctx d p mp b msk bl s = (r, t) \<Longrightarrow> set (written t) \<subseteq> set p"
  unfolding transfer_batches_def
  by (auto split: list.splits sum.splits option.splits prod.splits if_splits
      dest!: run_batches_written_subset)

lemma transfer_written_subset:
  assumes tr: "transfer ev E ctx d p mp dev b msk bl s = Some (r, t)"
    and ev: "\<And>d' p' s' r' t'. set p' \<subseteq> set p \<Longrightarrow>
               ev d' p' mp dev b msk bl s' = Some (r', t') \<Longrightarrow> set (written t') \<subseteq> set p'"
  shows "set (written t) \<subseteq> set p"
proof -
  let ?k = "length p div nat b * nat b"
  obtain r0 t0 where t0: "transfer_batches E ctx d p mp b msk bl s = (r0, t0)"
    by (cases "transfer_batches E ctx d p mp b msk bl s")
  from t0 have w0: "set (written t0) \<subseteq> set p" by (rule transfer_batches_written_subset)
  show ?thesis
  proof (cases "r0 = None \<and> drop ?k d \<noteq> []")
    case False
    with tr t0 have "t = t0"
      by (auto simp: transfer_def Let_def split: option.splits)
    with w0 show ?thesis by simp
  next
    case True
    with tr t0 obtain t' where
      e: "ev (drop ?k d) (drop ?k p) mp dev b msk bl (apply_events t0 s) = Some (r, t')" and
      t: "t = t0 @ t'"
      by (auto simp: transfer_def Let_def split: option.splits)
    have "set (written t') \<subseteq> set (drop ?k p)"
      using set_drop_subset e by (rule ev)
    also have "\<dots> \<subseteq> set p" by (rule set_drop_subset)
    finally show ?thesis using w0 t by (simp add: written_append)
  qed
qed

lemma eval_written_subset:
  "eval fuel E d p mp dev B msk bl s = Some (r, t) \<Longrightarrow> set (written t) \<subseteq> set p"
proof (induction fuel arbitrary: d p B s r t)
  case 0
  then show ?case by simp
next
  case (Suc fuel)
  let ?b = "min (int (length p)) B"
  have tw: "set (written u) \<subseteq> set p"
    if "transfer (eval fuel E) E ctx d p mp dev ?b msk bl s' = Some (r', u)" for ctx s' r' u
    using that by (rule transfer_written_subset) (rule Suc.IH)
  from Suc.prems consider
    (primary) "transfer (eval fuel E) E dev d p mp dev ?b msk bl s = Some (r, t)" |
    (fallback) t1 t2 where "t = t1 @ Print cpu_message # t2"
      "transfer (eval fuel E) E dev d p mp dev ?b msk bl s =
         Some (Some ResourceExhaustedError, t1)"
      "transfer (eval fuel E) E ''/cpu:0'' d p mp dev ?b msk bl
         (apply_events (t1 @ [Print cpu_message]) s) = Some (r, t2)"
    unfolding eval_Suc[of fuel E d p mp dev B msk bl s]
    by (auto split: option.splits prod.splits if_splits)
  then show ?case
  proof cases
    case primary
    then show ?thesis by (rule tw)
  next
    case fallback
    from tw[OF fallback(2)] tw[OF fallback(3)] fallback(1) show ?thesis
      by (simp add: written_append)
  qed
qed

lemma eval_rerun:
  assumes dis: "set d \<inter> set p = {}"
    and ev: "eval fuel E d p mp dev B msk bl s = Some (r, t)"
  shows "eval fuel E d p mp dev B msk bl (apply_events t s) = Some (r, t)"
proof -
  have "\<forall>q\<in>set d. files (apply_events t s) q = files s q"
  proof
    fix q
    assume "q \<in> set d"
    with dis have "q \<notin> set p" by auto
    with eval_written_subset[OF ev] have "q \<notin> set (written t)" by auto
    then show "files (apply_events t s) q = files s q" by (rule files_unwritten)
  qed
  then have "eval fuel E d p mp dev B msk bl (apply_events t s) =
             eval fuel E d p mp dev B msk bl s"
    by (rule eval_agree)
  with ev show ?thesis by simp
qed

lemma post_image_plain:
  "post_image x preds i j 0 0 = map_sum id clip_uint8 (get_pred preds j)"
  by (simp add: post_image_def split: sum.splits)

text \<open>
  Claim C10.  With mask 0 and blend 0 the image saved for a slot is the prediction of
  that slot, clipped to [0, 255] and cast to 8 bits, and nothing else.  A run is a
  function of the bytes of its input files: when no output path is an input path, a
  second run of eval on the file system the first run left ends the same way and writes
  the same bytes to the same paths, so that every file is byte for byte what it was
  after the first run.
\<close>

theorem eval_idempotent:
  assumes "set d \<inter> set p = {}"
    and "eval fuel E d p mp dev B 0 0 s = Some (r, t)"
  shows "eval fuel E d p mp dev B 0 0 (apply_events t s) = Some (r, t) \<and>
         files (apply_events t (apply_events t s)) = files (apply_events t s) \<and>
         post_image x preds i j 0 0 = map_sum id clip_uint8 (get_pred preds j)"
  using eval_rerun[OF assms] files_apply_twice post_image_plain by simp

theorem eval_idempotent_witness:
  "set [''a'', ''b''] \<inter> set [''oa'', ''ob''] = {} \<and>
   eval 2 demo_env [''a'', ''b''] [''oa'', ''ob''] ''m'' ''/gpu:0'' 2 0 0 demo_fs =
     Some (None, [Read ''a'', Restore ''/gpu:0'' ''m'', Read ''a'', Run ''/gpu:0'', Read ''b'',
             Run ''/gpu:0'', Write ''oa'' [200, 200, 200, 200, 200, 200],
             Write ''ob'' [200, 200, 200, 225, 225, 225]]) \<and>
   eval 2 demo_env [''a'', ''b''] [''oa'', ''ob''] ''m'' ''/gpu:0'' 2 0 0
     (apply_events [Read ''a'', Restore ''/gpu:0'' ''m'', Read ''a'', Run ''/gpu:0'', Read ''b'',
             Run ''/gpu:0'', Write ''oa'' [200, 200, 200, 200, 200, 200],
             Write ''ob'' [200, 200, 200, 225, 225, 225]] demo_fs) =
     Some (None, [Read ''a'', Restore ''/gpu:0'' ''m'', Read ''a'', Run ''/gpu:0'', Read ''b'',
             Run ''/gpu:0'', Write ''oa'' [200, 200, 200, 200, 200, 200],
             Write ''ob'' [200, 200, 200, 225, 225, 225]])"
proof -
  have dj: "set [''a'', ''b''] \<inter> set [''oa'', ''ob''] = {}" by simp
  have e: "eval 2 demo_env [''a'', ''b''] [''oa'', ''ob''] ''m'' ''/gpu:0'' 2 0 0 demo_fs =
     Some (None, [Read ''a'', Restore ''/gpu:0'' ''m'', Read ''a'', Run ''/gpu:0'', Read ''b'',
             Run ''/gpu:0'', Write ''oa'' [200, 200, 200, 200, 200, 200],
             Write ''ob'' [200, 200, 200, 225, 225, 225]])"
    by code_simp
  from eval_idempotent[OF dj e] dj e show ?thesis by blast
qed

end
